theory Spec2Isabelle
  imports Main "HOL-Library.AList" "HOL-Library.Multiset"
begin

section \<open>Data model\<close>

text \<open>
  The bot keeps five module-level variables (\<^verbatim>\<open>knownMembers\<close>, \<^verbatim>\<open>lastNotified\<close>,
  \<^verbatim>\<open>notifyBuffer\<close>, \<^verbatim>\<open>debounceTimer\<close>, \<^verbatim>\<open>saveScheduled\<close>) and talks to three
  collaborators: the platform client, the file system and the timer queue of the
  JavaScript event loop. All of them are fields of one record, \<open>world\<close>, that every
  operation takes and returns.

  Times are milliseconds since the epoch, as \<^verbatim>\<open>Date.now()\<close> returns them.
\<close>

subsection \<open>JSON values and JavaScript sets\<close>

text \<open>
  The persistence file is JSON. A file's text is represented by the value it parses to;
  text that \<^verbatim>\<open>JSON.parse\<close> rejects is the disk state \<open>Corrupt\<close> below. A parsed object
  is the list of its own properties in the order \<^verbatim>\<open>Object.keys\<close> reports them.
  Numbers carry an integer only: no operation of the program reads a number from the file.

  Guild and member identifiers are the platform's snowflakes, decimal strings of 17 to 20
  digits. None of them names a property that every object inherits, and none is an array
  index, so \<^verbatim>\<open>knownMembers\<close>, a plain object, keeps its keys in insertion order and is
  an association list here.
\<close>

datatype jval =
    JNull
  | JBool bool
  | JNum int
  | JStr string
  | JArr "jval list"
  | JObj "(string \<times> jval) list"

text \<open>
  A JavaScript \<^verbatim>\<open>Set\<close> is the list of its elements in insertion order. Elements are
  compared by SameValueZero: primitives by value, arrays and objects by identity, and
  every array or object that \<^verbatim>\<open>JSON.parse\<close> builds is a fresh one.
\<close>

type_synonym js_set = "jval list"

fun is_prim :: "jval \<Rightarrow> bool" where
  "is_prim (JArr _) = False"
| "is_prim (JObj _) = False"
| "is_prim _ = True"

definition set_has :: "js_set \<Rightarrow> jval \<Rightarrow> bool" where
  "set_has s x = (is_prim x \<and> x \<in> set s)"

definition set_add :: "jval \<Rightarrow> js_set \<Rightarrow> js_set" where
  "set_add x s = (if set_has s x then s else s @ [x])"

definition set_size :: "js_set \<Rightarrow> nat" where
  "set_size s = length s"

definition Array_from :: "js_set \<Rightarrow> jval list" where
  "Array_from s = s"

text \<open>The representation invariant of a set: no primitive occurs twice.\<close>

definition wf_set :: "js_set \<Rightarrow> bool" where
  "wf_set s = distinct (filter is_prim s)"

subsection \<open>Members, guilds, configuration\<close>

text \<open>
  A member is its identifier, its join timestamp (\<^verbatim>\<open>number | null\<close>) and the guild it
  belongs to, of which the program only ever reads the identifier. The display
  attributes are read by the message formatter alone and are left out.
\<close>

record member =
  mid :: string
  joinedTimestamp :: "int option"
  mguild :: "string option"

text \<open>
  The program tests the timestamp by truthiness (\<^verbatim>\<open>!m.joinedTimestamp\<close>,
  \<^verbatim>\<open>member.joinedTimestamp && ...\<close>): \<^verbatim>\<open>null\<close> and \<^verbatim>\<open>0\<close> are both falsy.
\<close>

fun truthy :: "int option \<Rightarrow> bool" where
  "truthy None = False"
| "truthy (Some t) = (t \<noteq> 0)"

fun num_or_0 :: "int option \<Rightarrow> int" where
  "num_or_0 None = 0"
| "num_or_0 (Some t) = t"

record guild =
  gid :: string
  memberCount :: "int option"
  cache :: "member list"

record cfg =
  notifyDebounceMs :: int
  notifyCooldownMs :: int

definition cfg_default :: cfg where
  "cfg_default = \<lparr> notifyDebounceMs = 5000, notifyCooldownMs = 10 * 60 * 1000 \<rparr>"

subsection \<open>Timers, disk, program state\<close>

datatype callback = FlushCb | SaveCb

datatype timer = Timer (tid: nat) (due: int) (cb: callback)

datatype disk = NoFile | Unreadable | Corrupt | Json jval

record world =
  knownMembers :: "(string \<times> js_set) list"
  lastNotified :: "string \<rightharpoonup> int"
  notifyBuffer :: "(string \<times> member) list"
  debounceTimer :: "nat option"
  saveScheduled :: bool
  readyAt :: "int option"
  timers :: "timer list"
  nextTimer :: nat
  writes :: "jval list"
  persistenceFile :: disk

text \<open>
  \<open>timers\<close> is the event loop's queue of pending timeouts, \<open>nextTimer\<close> the next fresh
  handle, \<open>writes\<close> the payloads of the \<^verbatim>\<open>fs.writeFile\<close> calls that have started and not
  finished, \<open>persistenceFile\<close> the file at \<^verbatim>\<open>cfg.persistenceFile\<close>.
\<close>

definition setTimeout :: "callback \<Rightarrow> int \<Rightarrow> int \<Rightarrow> world \<Rightarrow> nat \<times> world" where
  "setTimeout c delay now w =
     (nextTimer w,
      w\<lparr> timers := timers w @ [Timer (nextTimer w) (now + delay) c],
         nextTimer := Suc (nextTimer w) \<rparr>)"

definition clearTimeout :: "nat \<Rightarrow> world \<Rightarrow> world" where
  "clearTimeout h w = w\<lparr> timers := filter (\<lambda>t. tid t \<noteq> h) (timers w) \<rparr>"

text \<open>The known set of a guild as a set of identifiers; a guild without entry has none.\<close>

definition known :: "(string \<times> js_set) list \<Rightarrow> string \<Rightarrow> js_set" where
  "known km g = (case map_of km g of None \<Rightarrow> [] | Some s \<Rightarrow> s)"

definition known_ids :: "world \<Rightarrow> string \<Rightarrow> jval set" where
  "known_ids w g = set (known (knownMembers w) g)"

section \<open>Notification scheduler\<close>

text \<open>
  \<^verbatim>\<open>scheduleNotify(member, guild)\<close>. Of the guild only \<^verbatim>\<open>guild.id\<close> is ever read (by the
  flush), so the buffer holds the identifier. Both reads of the clock in one call return
  \<open>now\<close>.
\<close>

definition cooling :: "cfg \<Rightarrow> world \<Rightarrow> string \<Rightarrow> int \<Rightarrow> bool" where
  "cooling c w m now = (now - num_or_0 (lastNotified w m) < notifyCooldownMs c)"

definition scheduleNotify :: "cfg \<Rightarrow> member \<Rightarrow> string \<Rightarrow> int \<Rightarrow> world \<Rightarrow> world" where
  "scheduleNotify c m g now w =
     (if cooling c w (mid m) now then w
      else
        let w1 = w\<lparr> lastNotified := (lastNotified w)(mid m \<mapsto> now),
                    notifyBuffer := notifyBuffer w @ [(g, m)] \<rparr>;
            w2 = (case debounceTimer w1 of None \<Rightarrow> w1 | Some h \<Rightarrow> clearTimeout h w1);
            (h', w3) = setTimeout FlushCb (notifyDebounceMs c) now w2
        in w3\<lparr> debounceTimer := Some h' \<rparr>)"

subsection \<open>Flush\<close>

text \<open>
  \<^verbatim>\<open>byGuild\<close> is a \<^verbatim>\<open>Map\<close> from guild identifier to the array of that guild's members:
  keys in order of first appearance, members in buffer order.
\<close>

fun byGuild_push :: "string \<times> member \<Rightarrow> (string \<times> member list) list \<Rightarrow> (string \<times> member list) list" where
  "byGuild_push (g, m) [] = [(g, [m])]"
| "byGuild_push (g, m) ((g', ms) # bs) =
     (if g' = g then (g', ms @ [m]) # bs else (g', ms) # byGuild_push (g, m) bs)"

definition byGuild :: "(string \<times> member) list \<Rightarrow> (string \<times> member list) list" where
  "byGuild buf = fold byGuild_push buf []"

text \<open>
  The part of \<^verbatim>\<open>flushNotifyBuffer\<close> that runs before its first \<^verbatim>\<open>await\<close>: nothing on
  an empty buffer, otherwise the grouping is taken and the buffer cleared.
\<close>

definition flushNotifyBuffer :: "world \<Rightarrow> world \<times> (string \<times> member list) list" where
  "flushNotifyBuffer w =
     (if notifyBuffer w = [] then (w, [])
      else (w\<lparr> notifyBuffer := [] \<rparr>, byGuild (notifyBuffer w)))"

text \<open>
  Dispatch. What \<^verbatim>\<open>client.channels.fetch\<close> and \<^verbatim>\<open>channel.send\<close> do is the platform's
  choice: the fetch throws, returns nothing, or returns a channel whose \<^verbatim>\<open>send\<close>
  succeeds on some messages. One variant of the script sends one summary per guild, the
  other one detailed message per member.
\<close>

datatype message = Summary string "member list" | Detail member

datatype channel = ChanThrows | ChanNull | Chan "message \<Rightarrow> bool"

fun dispatch_summary :: "channel \<Rightarrow> string \<times> member list \<Rightarrow> message list" where
  "dispatch_summary (Chan send) (g, ms) = (if send (Summary g ms) then [Summary g ms] else [])"
| "dispatch_summary _ _ = []"

fun dispatch_detailed :: "channel \<Rightarrow> string \<times> member list \<Rightarrow> message list" where
  "dispatch_detailed (Chan send) (g, ms) = filter send (map Detail ms)"
| "dispatch_detailed _ _ = []"

section \<open>Membership store\<close>

subsection \<open>Loading\<close>

datatype exn = ENOENT | ReadError | SyntaxError | TypeError

text \<open>\<^verbatim>\<open>fs.readFile\<close> followed by \<^verbatim>\<open>JSON.parse\<close>.\<close>

fun read_and_parse :: "disk \<Rightarrow> exn + jval" where
  "read_and_parse NoFile = Inl ENOENT"
| "read_and_parse Unreadable = Inl ReadError"
| "read_and_parse Corrupt = Inl SyntaxError"
| "read_and_parse (Json v) = Inr v"

function string_of_nat :: "nat \<Rightarrow> string" where
  "string_of_nat n =
     (if n < 10 then [char_of (48 + n)]
      else string_of_nat (n div 10) @ [char_of (48 + n mod 10)])"
  by pat_completeness auto
termination
  by (relation "measure id") auto

text \<open>
  \<^verbatim>\<open>Object.keys(obj || {})\<close> paired with \<^verbatim>\<open>obj[key]\<close>: the properties of an object, the
  indices of an array or of a string; \<^verbatim>\<open>null\<close>, booleans and numbers have none.
\<close>

fun own_entries :: "jval \<Rightarrow> (string \<times> jval) list" where
  "own_entries (JObj kvs) = kvs"
| "own_entries (JArr xs) = zip (map string_of_nat [0 ..< length xs]) xs"
| "own_entries (JStr s) = zip (map string_of_nat [0 ..< length s]) (map (\<lambda>ch. JStr [ch]) s)"
| "own_entries _ = []"

text \<open>
  \<^verbatim>\<open>new Set(v)\<close>: empty for \<^verbatim>\<open>null\<close>, the elements of an array, the characters of a
  string, and a \<^verbatim>\<open>TypeError\<close> for a value that is not iterable.
\<close>

fun new_Set :: "jval \<Rightarrow> exn + js_set" where
  "new_Set JNull = Inr []"
| "new_Set (JArr xs) = Inr (fold set_add xs [])"
| "new_Set (JStr s) = Inr (fold set_add (map (\<lambda>ch. JStr [ch]) s) [])"
| "new_Set _ = Inl TypeError"

text \<open>
  The loop of \<^verbatim>\<open>loadPersistence\<close>. An exception leaves the assignments already made
  in place.
\<close>

fun load_loop :: "(string \<times> jval) list \<Rightarrow> (string \<times> js_set) list \<Rightarrow> (string \<times> js_set) list \<times> exn option" where
  "load_loop [] km = (km, None)"
| "load_loop ((g, v) # rest) km =
     (case new_Set v of
        Inl e \<Rightarrow> (km, Some e)
      | Inr s \<Rightarrow> load_loop rest (AList.update g s km))"

definition load_try :: "disk \<Rightarrow> (string \<times> js_set) list \<Rightarrow> (string \<times> js_set) list \<times> exn option" where
  "load_try d km =
     (case read_and_parse d of
        Inl e \<Rightarrow> (km, Some e)
      | Inr obj \<Rightarrow> load_loop (own_entries obj) km)"

text \<open>
  \<^verbatim>\<open>loadPersistence\<close>: the \<^verbatim>\<open>try\<close> block above and the \<^verbatim>\<open>catch\<close> block, which returns
  \<^verbatim>\<open>false\<close> for \<^verbatim>\<open>ENOENT\<close> and for every other exception (the two differ in the log
  line only). The result is a sum so that a raise would be a value \<open>Inl\<close>.
\<close>

definition loadPersistence :: "world \<Rightarrow> exn + (world \<times> bool)" where
  "loadPersistence w =
     (case load_try (persistenceFile w) (knownMembers w) of
        (km, None) \<Rightarrow> Inr (w\<lparr> knownMembers := km \<rparr>, True)
      | (km, Some e) \<Rightarrow>
          (if e = ENOENT then Inr (w\<lparr> knownMembers := km \<rparr>, False)
           else Inr (w\<lparr> knownMembers := km \<rparr>, False)))"

subsection \<open>Saving\<close>

text \<open>
  \<^verbatim>\<open>savePersistence\<close> up to its return: nothing when a save is already scheduled,
  otherwise the flag is raised and a timeout of 800 ms is started.
\<close>

definition savePersistence :: "int \<Rightarrow> world \<Rightarrow> world" where
  "savePersistence now w =
     (if saveScheduled w then w
      else snd (setTimeout SaveCb 800 now (w\<lparr> saveScheduled := True \<rparr>)))"

text \<open>
  The timeout's callback up to its \<^verbatim>\<open>await\<close>: the dump is taken from \<^verbatim>\<open>knownMembers\<close>
  as it is when the timer fires and the write starts. (\<^verbatim>\<open>Array.from\<close> of a \<^verbatim>\<open>Set\<close> does
  not throw, so the callback's inner \<^verbatim>\<open>catch\<close> is never entered.)
\<close>

definition dump :: "(string \<times> js_set) list \<Rightarrow> jval" where
  "dump km = JObj (map (\<lambda>(g, s). (g, JArr (Array_from s))) km)"

definition saveCallback :: "world \<Rightarrow> world" where
  "saveCallback w = w\<lparr> writes := writes w @ [dump (knownMembers w)] \<rparr>"

text \<open>
  The oldest write in flight finishes. On success the file holds the payload; on failure
  it is left in a state the file system chooses. Either way the \<^verbatim>\<open>finally\<close> block
  lowers the flag.
\<close>

datatype write_result = WriteOk | WriteFailed disk

definition writeDone :: "write_result \<Rightarrow> world \<Rightarrow> world" where
  "writeDone r w =
     (case writes w of
        [] \<Rightarrow> w
      | d # ds \<Rightarrow>
          w\<lparr> writes := ds,
             persistenceFile := (case r of WriteOk \<Rightarrow> Json d | WriteFailed f \<Rightarrow> f),
             saveScheduled := False \<rparr>)"

section \<open>Membership reconciler\<close>

text \<open>
  A roster is a collection keyed by member identifier; iterating it yields each member
  with its own identifier as key.
\<close>

definition diffNewMembers :: "(string \<times> js_set) list \<Rightarrow> string \<Rightarrow> member list \<Rightarrow> member list" where
  "diffNewMembers km g fetchedMembers =
     (let seen = known km g
      in filter (\<lambda>m. \<not> set_has seen (JStr (mid m))) fetchedMembers)"

text \<open>\<^verbatim>\<open>if (!knownMembers[gid]) knownMembers[gid] = new Set()\<close>\<close>

definition ensure_entry :: "string \<Rightarrow> world \<Rightarrow> world" where
  "ensure_entry g w =
     (if map_of (knownMembers w) g = None
      then w\<lparr> knownMembers := AList.update g [] (knownMembers w) \<rparr>
      else w)"

text \<open>\<^verbatim>\<open>knownMembers[g].add(id)\<close>: a \<^verbatim>\<open>TypeError\<close> when the guild has no entry.\<close>

definition mark_known :: "string \<Rightarrow> string \<Rightarrow> (string \<times> js_set) list \<Rightarrow> exn + (string \<times> js_set) list" where
  "mark_known g i km =
     (case map_of km g of
        None \<Rightarrow> Inl TypeError
      | Some s \<Rightarrow> Inr (AList.update g (set_add (JStr i) s) km))"

fun mark_all :: "string \<Rightarrow> member list \<Rightarrow> (string \<times> js_set) list \<Rightarrow> exn + (string \<times> js_set) list" where
  "mark_all g [] km = Inr km"
| "mark_all g (m # ms) km =
     (case mark_known g (mid m) km of
        Inl e \<Rightarrow> Inl e
      | Inr km' \<Rightarrow> mark_all g ms km')"

text \<open>
  One iteration of \<^verbatim>\<open>pollWorker\<close>, in the two parts that its \<^verbatim>\<open>await\<close> of the roster
  fetch separates. The first creates the guild's entry and compares the counts; its
  result says whether the roster is fetched.
\<close>

definition pollPrecheck :: "guild \<Rightarrow> world \<Rightarrow> world \<times> bool" where
  "pollPrecheck g w =
     (let w1 = ensure_entry (gid g) w;
          currentKnownSize = set_size (known (knownMembers w1) (gid g));
          remoteCount = num_or_0 (memberCount g)
      in if remoteCount \<le> int currentKnownSize then (w1, False) else (w1, True))"

datatype fetch_result = Fetched "member list" | FetchFailed

fun roster_of :: "guild \<Rightarrow> fetch_result \<Rightarrow> member list" where
  "roster_of g (Fetched ms) = ms"
| "roster_of g FetchFailed = cache g"

text \<open>\<^verbatim>\<open>!m.joinedTimestamp || m.joinedTimestamp >= startupTs - 5000\<close>\<close>

definition recent :: "int \<Rightarrow> member \<Rightarrow> bool" where
  "recent startupTs m =
     (\<not> truthy (joinedTimestamp m) \<or>
      (case joinedTimestamp m of None \<Rightarrow> False | Some t \<Rightarrow> t \<ge> startupTs - 5000))"

definition forward_all :: "cfg \<Rightarrow> string \<Rightarrow> member list \<Rightarrow> int \<Rightarrow> world \<Rightarrow> world" where
  "forward_all c g ms now w = fold (\<lambda>m. scheduleNotify c m g now) ms w"

text \<open>
  The second part: diff, recency filter, marking, save request, and the calls of
  \<^verbatim>\<open>scheduleNotify\<close>. It returns the members handed to the scheduler. An exception in
  the marking is caught by the iteration's \<^verbatim>\<open>catch\<close>, which logs and goes on to the next
  guild.
\<close>

definition pollFetched :: "cfg \<Rightarrow> guild \<Rightarrow> member list \<Rightarrow> int \<Rightarrow> world \<Rightarrow> world \<times> member list" where
  "pollFetched c g fetched now w =
     (let newMembers = diffNewMembers (knownMembers w) (gid g) fetched
      in if newMembers = [] then (w, [])
         else
           let startupTs = (case readyAt w of Some r \<Rightarrow> r | None \<Rightarrow> now);
               realNew = filter (recent startupTs) newMembers
           in case mark_all (gid g) newMembers (knownMembers w) of
                Inl e \<Rightarrow> (w, [])
              | Inr km \<Rightarrow>
                  let w1 = savePersistence now (w\<lparr> knownMembers := km \<rparr>)
                  in (forward_all c (gid g) realNew now w1, realNew))"

text \<open>A whole iteration with nothing else running during the fetch.\<close>

record poll_result =
  after :: world
  fetchCalled :: bool
  forwarded :: "member list"

definition pollGuild :: "cfg \<Rightarrow> guild \<Rightarrow> fetch_result \<Rightarrow> int \<Rightarrow> world \<Rightarrow> poll_result" where
  "pollGuild c g fr now w =
     (case pollPrecheck g w of
        (w1, False) \<Rightarrow> \<lparr> after = w1, fetchCalled = False, forwarded = [] \<rparr>
      | (w1, True) \<Rightarrow>
          (case pollFetched c g (roster_of g fr) now w1 of
             (w2, fw) \<Rightarrow> \<lparr> after = w2, fetchCalled = True, forwarded = fw \<rparr>))"

section \<open>Live join listener\<close>

text \<open>
  The handler of \<^verbatim>\<open>guildMemberAdd\<close>. The two scripts share the guard, the marking and
  the save request; one then hands the member to the scheduler, the other sends one
  detailed message at once. \<^verbatim>\<open>if (!member || !member.guild) return\<close> is the two \<open>None\<close>
  cases.
\<close>

datatype variant = Batched | Instant

text \<open>
  \<^verbatim>\<open>member.joinedTimestamp && client.readyAt &&
  member.joinedTimestamp < client.readyAt.getTime() - 2000\<close>
\<close>

definition stale :: "world \<Rightarrow> member \<Rightarrow> bool" where
  "stale w m =
     (truthy (joinedTimestamp m) \<and>
      (case (joinedTimestamp m, readyAt w) of
         (Some t, Some r) \<Rightarrow> t < r - 2000
       | _ \<Rightarrow> False))"

datatype effect =
    FetchRoster string
  | Forward string member
  | Flushed "(string \<times> member list) list"
  | Sent message
  | WriteStarted jval

fun dispatch :: "variant \<Rightarrow> channel \<Rightarrow> string \<times> member list \<Rightarrow> message list" where
  "dispatch Batched ch b = dispatch_summary ch b"
| "dispatch Instant ch b = dispatch_detailed ch b"

definition guildMemberAdd :: "variant \<Rightarrow> cfg \<Rightarrow> member option \<Rightarrow> channel \<Rightarrow> int \<Rightarrow> world \<Rightarrow> world \<times> effect list" where
  "guildMemberAdd v c ev ch now w =
     (case ev of
        None \<Rightarrow> (w, [])
      | Some m \<Rightarrow>
          (case mguild m of
             None \<Rightarrow> (w, [])
           | Some g \<Rightarrow>
               let w1 = ensure_entry g w
               in if set_has (known (knownMembers w1) g) (JStr (mid m)) then (w1, [])
                  else if stale w1 m then (w1, [])
                  else
                    (case mark_known g (mid m) (knownMembers w1) of
                       Inl e \<Rightarrow> (w1, [])
                     | Inr km \<Rightarrow>
                         let w2 = savePersistence now (w1\<lparr> knownMembers := km \<rparr>)
                         in (case v of
                               Batched \<Rightarrow> (scheduleNotify c m g now w2, [Forward g m])
                             | Instant \<Rightarrow> (w2, map Sent (dispatch_detailed ch (g, [m])))))))"

section \<open>The event loop\<close>

text \<open>
  Every callback of the program runs to its next \<^verbatim>\<open>await\<close> of an external operation
  without interruption; between two such runs anything else may run. An execution is a
  list of events, each one such run:
  \<^item> the first part of a poll iteration, and the second, once the roster has arrived;
  \<^item> a join event;
  \<^item> a timeout that fires (a handle that is not pending does nothing);
  \<^item> the end of a file write;
  \<^item> a call of \<^verbatim>\<open>savePersistence\<close> by the ready handler or the shutdown path.
  A flush takes, for each guild, the channel that the platform returns. Every read of the
  clock within one run returns the time that the event carries.
\<close>

datatype event =
    EvPollCheck guild
  | EvPollFetched guild "member list" int
  | EvJoin "member option" channel int
  | EvFire nat "string \<Rightarrow> channel"
  | EvWriteDone write_result
  | EvSave int

definition pending :: "callback \<Rightarrow> world \<Rightarrow> timer list" where
  "pending k w = filter (\<lambda>t. cb t = k) (timers w)"

definition fire :: "variant \<Rightarrow> nat \<Rightarrow> (string \<Rightarrow> channel) \<Rightarrow> world \<Rightarrow> world \<times> effect list" where
  "fire v h chans w =
     (case find (\<lambda>t. tid t = h) (timers w) of
        None \<Rightarrow> (w, [])
      | Some t \<Rightarrow>
          let w1 = clearTimeout h w
          in (case cb t of
                FlushCb \<Rightarrow>
                  (case flushNotifyBuffer w1 of
                     (w2, batches) \<Rightarrow>
                       (w2, Flushed batches #
                            map Sent (concat (map (\<lambda>b. dispatch v (chans (fst b)) b) batches))))
              | SaveCb \<Rightarrow> (saveCallback w1, [WriteStarted (dump (knownMembers w1))])))"

fun step :: "cfg \<Rightarrow> variant \<Rightarrow> event \<Rightarrow> world \<Rightarrow> world \<times> effect list" where
  "step c v (EvPollCheck g) w =
     (case pollPrecheck g w of
        (w1, go) \<Rightarrow> (w1, if go then [FetchRoster (gid g)] else []))"
| "step c v (EvPollFetched g fetched now) w =
     (case pollFetched c g fetched now w of
        (w1, fw) \<Rightarrow> (w1, map (Forward (gid g)) fw))"
| "step c v (EvJoin ev ch now) w = guildMemberAdd v c ev ch now w"
| "step c v (EvFire h chans) w = fire v h chans w"
| "step c v (EvWriteDone r) w = (writeDone r w, [])"
| "step c v (EvSave now) w = (savePersistence now w, [])"

fun run :: "cfg \<Rightarrow> variant \<Rightarrow> event list \<Rightarrow> world \<Rightarrow> world \<times> effect list" where
  "run c v [] w = (w, [])"
| "run c v (e # es) w =
     (case step c v e w of
        (w1, o1) \<Rightarrow> (case run c v es w1 of (w2, o2) \<Rightarrow> (w2, o1 @ o2)))"

text \<open>The state in which the ready handler starts: nothing known, nothing pending.\<close>

definition initial :: "disk \<Rightarrow> int option \<Rightarrow> world" where
  "initial d r =
     \<lparr> knownMembers = [], lastNotified = Map.empty, notifyBuffer = [],
       debounceTimer = None, saveScheduled = False, readyAt = r,
       timers = [], nextTimer = 0, writes = [], persistenceFile = d \<rparr>"

section \<open>Startup\<close>

text \<open>
  The ready handler up to the registration of the listeners: load, baseline from the
  cached roster of every guild, save request. An exception out of \<^verbatim>\<open>loadPersistence\<close>
  would end the handler there; one in the baseline of a guild is caught and logged.
\<close>

definition baseline :: "guild \<Rightarrow> world \<Rightarrow> world" where
  "baseline g w =
     (let w1 = ensure_entry (gid g) w
      in case mark_all (gid g) (cache g) (knownMembers w1) of
           Inl e \<Rightarrow> w1
         | Inr km \<Rightarrow> w1\<lparr> knownMembers := km \<rparr>)"

definition onReady :: "guild list \<Rightarrow> int \<Rightarrow> world \<Rightarrow> exn + world" where
  "onReady guilds now w =
     (case loadPersistence w of
        Inl e \<Rightarrow> Inl e
      | Inr (w1, hadPersistence) \<Rightarrow>
          let w2 = fold baseline guilds w1
          in if \<not> hadPersistence then Inr (savePersistence now w2)
             else Inr (savePersistence now w2))"

section \<open>Arrivals at the scheduler\<close>

text \<open>
  A burst of calls of \<^verbatim>\<open>scheduleNotify\<close>, each with its member, guild and time. A
  timeout whose time has passed fires before anything that happens later, so before the
  call at time \<open>t\<close> every flush timer due before \<open>t\<close> has fired. A timer due at \<open>t\<close>
  itself has not: the call comes first.
\<close>

definition overdue :: "int \<Rightarrow> world \<Rightarrow> nat list" where
  "overdue t w = map tid (filter (\<lambda>x. due x < t) (pending FlushCb w))"

definition settle :: "cfg \<Rightarrow> variant \<Rightarrow> (string \<Rightarrow> channel) \<Rightarrow> int \<Rightarrow> world \<Rightarrow> world \<times> effect list" where
  "settle c v chans t w = run c v (map (\<lambda>h. EvFire h chans) (overdue t w)) w"

fun arrivals :: "cfg \<Rightarrow> variant \<Rightarrow> (string \<Rightarrow> channel) \<Rightarrow> (member \<times> string \<times> int) list \<Rightarrow> world \<Rightarrow> world \<times> effect list" where
  "arrivals c v chans [] w = (w, [])"
| "arrivals c v chans ((m, g, t) # rest) w =
     (case settle c v chans t w of
        (w1, fx1) \<Rightarrow>
          (case arrivals c v chans rest (scheduleNotify c m g t w1) of
             (w2, fx2) \<Rightarrow> (w2, fx1 @ fx2)))"

text \<open>Every call of the burst passes the cooldown check in the state it arrives in.\<close>

fun all_accepted :: "cfg \<Rightarrow> variant \<Rightarrow> (string \<Rightarrow> channel) \<Rightarrow> (member \<times> string \<times> int) list \<Rightarrow> world \<Rightarrow> bool" where
  "all_accepted c v chans [] w = True"
| "all_accepted c v chans ((m, g, t) # rest) w =
     (case settle c v chans t w of
        (w1, fx1) \<Rightarrow>
          \<not> cooling c w1 (mid m) t \<and> all_accepted c v chans rest (scheduleNotify c m g t w1))"

text \<open>The time of a call, and the pair it puts into the buffer.\<close>

definition time_of :: "member \<times> string \<times> int \<Rightarrow> int" where
  "time_of x = snd (snd x)"

definition pair_of :: "member \<times> string \<times> int \<Rightarrow> string \<times> member" where
  "pair_of x = (fst (snd x), fst x)"

text \<open>The gaps of a burst: times in order, consecutive ones at most \<open>d\<close> apart.\<close>

fun spaced :: "int \<Rightarrow> int list \<Rightarrow> bool" where
  "spaced d [] = True"
| "spaced d [t] = True"
| "spaced d (t # t' # ts) = (t \<le> t' \<and> t' - t \<le> d \<and> spaced d (t' # ts))"

text \<open>The flush events among the effects of a run, each with its batches.\<close>

fun flushes :: "effect list \<Rightarrow> (string \<times> member list) list list" where
  "flushes [] = []"
| "flushes (Flushed b # fx) = b # flushes fx"
| "flushes (_ # fx) = flushes fx"

text \<open>The (guild, member) pairs that a grouping holds.\<close>

definition pairs_of :: "(string \<times> member list) list \<Rightarrow> (string \<times> member) list" where
  "pairs_of bs = concat (map (\<lambda>(g, ms). map (Pair g) ms) bs)"

section \<open>Invariants and observations\<close>

text \<open>Handles of pending timeouts are distinct and older than the next fresh one.\<close>

definition wf_timers :: "world \<Rightarrow> bool" where
  "wf_timers w = (distinct (map tid (timers w)) \<and> (\<forall>t \<in> set (timers w). tid t < nextTimer w))"

text \<open>
  Exactly one flush timer is pending, it is the one \<^verbatim>\<open>debounceTimer\<close> refers to, and it
  is due one debounce interval after \<open>t\<close>.
\<close>

definition armed :: "cfg \<Rightarrow> int \<Rightarrow> world \<Rightarrow> bool" where
  "armed c t w =
     (\<exists>h. pending FlushCb w = [Timer h (t + notifyDebounceMs c) FlushCb] \<and> debounceTimer w = Some h)"

text \<open>
  Well-formed \<^verbatim>\<open>knownMembers\<close>: an object has each key once, and each value is a set.
\<close>

definition wf_known :: "(string \<times> js_set) list \<Rightarrow> bool" where
  "wf_known km = (distinct (map fst km) \<and> (\<forall>s \<in> snd ` set km. wf_set s))"

text \<open>The mapping from guild to set of identifiers that \<^verbatim>\<open>knownMembers\<close> stands for.\<close>

definition as_mapping :: "(string \<times> js_set) list \<Rightarrow> string \<rightharpoonup> jval set" where
  "as_mapping km g = map_option set (map_of km g)"

text \<open>
  The value of \<^verbatim>\<open>startupTs\<close> in a poll at time \<open>now\<close>:
  \<^verbatim>\<open>client.readyAt ? client.readyAt.getTime() : Date.now()\<close>.
\<close>

definition startupTs :: "world \<Rightarrow> int \<Rightarrow> int" where
  "startupTs w now = (case readyAt w of Some r \<Rightarrow> r | None \<Rightarrow> now)"

text \<open>
  What holds of the timers and the writes in every state the program reaches: handles
  are distinct and older than the next fresh one; the handle in \<^verbatim>\<open>debounceTimer\<close>, if it
  is still pending, is a flush timer; and the number of save timers pending plus the
  number of writes in flight is 1 when \<^verbatim>\<open>saveScheduled\<close> is set and 0 when it is not.
\<close>

definition save_inv :: "world \<Rightarrow> bool" where
  "save_inv w =
     (wf_timers w
      \<and> (\<forall>h. debounceTimer w = Some h \<longrightarrow>
             h < nextTimer w \<and> (\<forall>t \<in> set (timers w). tid t = h \<longrightarrow> cb t = FlushCb))
      \<and> length (pending SaveCb w) + length (writes w) = (if saveScheduled w then 1 else 0))"

text \<open>The fields that the invariant reads.\<close>

definition machinery :: "world \<Rightarrow> timer list \<times> nat \<times> jval list \<times> bool \<times> nat option" where
  "machinery w = (timers w, nextTimer w, writes w, saveScheduled w, debounceTimer w)"

section \<open>Example inputs\<close>

definition alice :: member where
  "alice = \<lparr> mid = ''1001'', joinedTimestamp = Some 1700000100000, mguild = Some ''guildA'' \<rparr>"

definition alice_in_B :: member where
  "alice_in_B = \<lparr> mid = ''1001'', joinedTimestamp = Some 1700000200000, mguild = Some ''guildB'' \<rparr>"

definition bob :: member where
  "bob = \<lparr> mid = ''1002'', joinedTimestamp = Some 1700000601000, mguild = Some ''guildA'' \<rparr>"

definition carol :: member where
  "carol = \<lparr> mid = ''1003'', joinedTimestamp = None, mguild = Some ''guildB'' \<rparr>"

text \<open>A member who joined long before the process started, and one who joined after.\<close>

definition dave :: member where
  "dave = \<lparr> mid = ''1004'', joinedTimestamp = Some 1600000000000, mguild = Some ''guildA'' \<rparr>"

definition erin :: member where
  "erin = \<lparr> mid = ''1005'', joinedTimestamp = Some 1700000050000, mguild = Some ''guildA'' \<rparr>"

definition guildA :: "int \<Rightarrow> guild" where
  "guildA n = \<lparr> gid = ''guildA'', memberCount = Some n, cache = [] \<rparr>"

text \<open>A process that became ready at 1700000000000 and notified about \<open>alice\<close> at once.\<close>

definition notified_world :: world where
  "notified_world =
     (initial NoFile (Some 1700000000000))\<lparr> lastNotified := [''1001'' \<mapsto> 1700000000000] \<rparr>"

definition fresh_world :: world where
  "fresh_world = initial NoFile (Some 1700000000000)"

text \<open>A process with two guilds, one of them with two known members, and a corrupt file.\<close>

definition two_guilds :: world where
  "two_guilds =
     (initial Corrupt (Some 1700000000000))
       \<lparr> knownMembers := [(''guildA'', [JStr ''1001'', JStr ''1002'']), (''guildB'', [])] \<rparr>"

definition burst :: "(member \<times> string \<times> int) list" where
  "burst = [(alice, ''guildA'', 1700000600000), (carol, ''guildB'', 1700000603000),
            (bob, ''guildA'', 1700000608000)]"

text \<open>
  A poll that finds \<open>dave\<close> and \<open>erin\<close>, the flush of its batch with a channel fetch
  that throws, a second poll that sees them again, and a late join event for \<open>erin\<close>.
\<close>

definition tick_then_failed_dispatch :: "event list" where
  "tick_then_failed_dispatch =
     [EvPollCheck (guildA 4),
      EvPollFetched (guildA 4) [alice, dave, erin] 1700000060000,
      EvFire 1 (\<lambda>_. ChanThrows),
      EvPollCheck (guildA 5),
      EvPollFetched (guildA 5) [alice, dave, erin] 1700000120000,
      EvJoin (Some erin) ChanNull 1700000130000]"

text \<open>Save requests before, during and after one write.\<close>

definition save_storm :: "event list" where
  "save_storm =
     [EvSave 1700000000100, EvSave 1700000000200,
      EvJoin (Some erin) ChanNull 1700000000300,
      EvFire 0 (\<lambda>_. ChanNull),
      EvSave 1700000000900, EvJoin (Some dave) ChanNull 1700000000950,
      EvWriteDone WriteOk, EvSave 1700000001000]"

section \<open>Properties\<close>

subsection \<open>Scheduler: cooldown\<close>

lemma scheduleNotify_dropped:
  "cooling c w (mid m) now \<Longrightarrow> scheduleNotify c m g now w = w"
  by (simp add: scheduleNotify_def)

lemma scheduleNotify_accepted:
  assumes "\<not> cooling c w (mid m) now"
  shows "lastNotified (scheduleNotify c m g now w) = (lastNotified w)(mid m \<mapsto> now)"
    and "notifyBuffer (scheduleNotify c m g now w) = notifyBuffer w @ [(g, m)]"
    and "knownMembers (scheduleNotify c m g now w) = knownMembers w"
    and "saveScheduled (scheduleNotify c m g now w) = saveScheduled w"
    and "writes (scheduleNotify c m g now w) = writes w"
    and "persistenceFile (scheduleNotify c m g now w) = persistenceFile w"
    and "readyAt (scheduleNotify c m g now w) = readyAt w"
    and "debounceTimer (scheduleNotify c m g now w) = Some (nextTimer w)"
    and "nextTimer (scheduleNotify c m g now w) = Suc (nextTimer w)"
    and "timers (scheduleNotify c m g now w) =
           (case debounceTimer w of None \<Rightarrow> timers w | Some h \<Rightarrow> filter (\<lambda>t. tid t \<noteq> h) (timers w))
           @ [Timer (nextTimer w) (now + notifyDebounceMs c) FlushCb]"
  using assms
  by (simp_all add: scheduleNotify_def setTimeout_def clearTimeout_def Let_def split: option.splits)







subsection \<open>Scheduler: debounce\<close>

lemma pairs_of_push: "mset (pairs_of (byGuild_push p bs)) = add_mset p (mset (pairs_of bs))"
  by (induction p bs rule: byGuild_push.induct) (auto simp: pairs_of_def)

lemma keys_push: "fst ` set (byGuild_push p bs) = insert (fst p) (fst ` set bs)"
  by (induction p bs rule: byGuild_push.induct) auto

lemma distinct_push: "distinct (map fst bs) \<Longrightarrow> distinct (map fst (byGuild_push p bs))"
proof (induction p bs rule: byGuild_push.induct)
  case (1 g m)
  then show ?case by simp
next
  case (2 g m g' ms bs)
  then show ?case using keys_push [of "(g, m)" bs] by (auto simp: image_iff)
qed

lemma fold_push_mset:
  "mset (pairs_of (fold byGuild_push buf acc)) = mset buf + mset (pairs_of acc)"
  by (induction buf arbitrary: acc) (simp_all add: pairs_of_push)

lemma fold_push_distinct:
  "distinct (map fst acc) \<Longrightarrow> distinct (map fst (fold byGuild_push buf acc))"
  by (induction buf arbitrary: acc) (simp_all add: distinct_push)

lemma byGuild_mset: "mset (pairs_of (byGuild buf)) = mset buf"
proof -
  have "pairs_of [] = []" by (simp add: pairs_of_def)
  then show ?thesis by (simp add: byGuild_def fold_push_mset)
qed

lemma byGuild_distinct: "distinct (map fst (byGuild buf))"
  by (simp add: byGuild_def fold_push_distinct)

lemma settle_none: "overdue t w = [] \<Longrightarrow> settle c v chans t w = (w, [])"
  by (simp add: settle_def)

lemma overdue_idle: "pending FlushCb w = [] \<Longrightarrow> overdue t w = []"
  by (simp add: overdue_def)

lemma overdue_armed: "armed c t0 w \<Longrightarrow> t - t0 \<le> notifyDebounceMs c \<Longrightarrow> overdue t w = []"
  by (auto simp: overdue_def armed_def)

lemma accept_arms:
  assumes "pending FlushCb w = [] \<or> armed c t0 w" and "\<not> cooling c w (mid m) t"
  shows "armed c t (scheduleNotify c m g t w)"
proof -
  have rest: "filter (\<lambda>x. cb x = FlushCb)
                (case debounceTimer w of None \<Rightarrow> timers w
                 | Some h \<Rightarrow> filter (\<lambda>x. tid x \<noteq> h) (timers w)) = []"
  proof (cases "pending FlushCb w = []")
    case True
    then show ?thesis
      by (cases "debounceTimer w") (auto simp: pending_def filter_empty_conv)
  next
    case False
    with assms(1) obtain h where h: "pending FlushCb w = [Timer h (t0 + notifyDebounceMs c) FlushCb]"
      "debounceTimer w = Some h"
      by (auto simp: armed_def)
    have "filter (\<lambda>x. cb x = FlushCb) (filter (\<lambda>x. tid x \<noteq> h) (timers w))
          = filter (\<lambda>x. tid x \<noteq> h) (pending FlushCb w)"
      by (simp add: pending_def conj_commute)
    with h show ?thesis by simp
  qed
  show ?thesis
    unfolding armed_def pending_def
    using rest by (simp add: scheduleNotify_accepted(8,10) [OF assms(2)])
qed

lemma accept_wf_timers:
  assumes "wf_timers w" and "\<not> cooling c w (mid m) t"
  shows "wf_timers (scheduleNotify c m g t w)"
proof -
  let ?old = "case debounceTimer w of None \<Rightarrow> timers w
              | Some h \<Rightarrow> filter (\<lambda>x. tid x \<noteq> h) (timers w)"
  have sub: "set ?old \<subseteq> set (timers w)" by (cases "debounceTimer w") auto
  have dist: "distinct (map tid ?old)"
    using assms(1) by (cases "debounceTimer w") (auto simp: wf_timers_def distinct_map_filter)
  from sub assms(1) have fresh: "\<forall>x \<in> set ?old. tid x < nextTimer w"
    by (auto simp: wf_timers_def)
  then have "nextTimer w \<notin> tid ` set ?old" by auto
  with dist fresh show ?thesis
    unfolding wf_timers_def
    by (simp add: scheduleNotify_accepted(9,10) [OF assms(2)] less_Suc_eq)
qed

lemma flushes_Sent: "flushes (map Sent ms) = []"
  by (induction ms) simp_all

lemma arrivals_quiet:
  assumes "(pending FlushCb w = [] \<and> spaced (notifyDebounceMs c) (map time_of calls))
           \<or> (\<exists>t0. armed c t0 w \<and> spaced (notifyDebounceMs c) (t0 # map time_of calls))"
    and "wf_timers w"
    and "all_accepted c v chans calls w"
  shows "\<exists>w'. arrivals c v chans calls w = (w', [])
           \<and> notifyBuffer w' = notifyBuffer w @ map pair_of calls
           \<and> wf_timers w'
           \<and> (calls \<noteq> [] \<longrightarrow> armed c (time_of (last calls)) w')"
  using assms
proof (induction calls arbitrary: w)
  case Nil
  then show ?case by simp
next
  case (Cons x rest)
  obtain m g t where x: "x = (m, g, t)" by (cases x) auto
  have quiet: "overdue t w = []"
    using Cons.prems(1) by (auto simp: x time_of_def overdue_idle overdue_armed)
  then have settle: "settle c v chans t w = (w, [])" by (rule settle_none)
  from Cons.prems(3) have free: "\<not> cooling c w (mid m) t"
    and acc: "all_accepted c v chans rest (scheduleNotify c m g t w)"
    by (simp_all add: x settle)
  let ?w1 = "scheduleNotify c m g t w"
  have "pending FlushCb w = [] \<or> (\<exists>t0. armed c t0 w)" using Cons.prems(1) by auto
  then obtain t0 where "pending FlushCb w = [] \<or> armed c t0 w" by auto
  then have armed1: "armed c t ?w1" using free by (rule accept_arms)
  have wf1: "wf_timers ?w1" using Cons.prems(2) free by (rule accept_wf_timers)
  have sp: "spaced (notifyDebounceMs c) (t # map time_of rest)"
  proof -
    from Cons.prems(1) show ?thesis
    proof
      assume "pending FlushCb w = [] \<and> spaced (notifyDebounceMs c) (map time_of (x # rest))"
      then show ?thesis by (simp add: x time_of_def)
    next
      assume "\<exists>t0. armed c t0 w \<and> spaced (notifyDebounceMs c) (t0 # map time_of (x # rest))"
      then show ?thesis by (auto simp: x time_of_def)
    qed
  qed
  have "(pending FlushCb ?w1 = [] \<and> spaced (notifyDebounceMs c) (map time_of rest))
        \<or> (\<exists>t0. armed c t0 ?w1 \<and> spaced (notifyDebounceMs c) (t0 # map time_of rest))"
    using armed1 sp by blast
  from Cons.IH [OF this wf1 acc] obtain w' where w':
    "arrivals c v chans rest ?w1 = (w', [])"
    "notifyBuffer w' = notifyBuffer ?w1 @ map pair_of rest"
    "wf_timers w'"
    "rest \<noteq> [] \<longrightarrow> armed c (time_of (last rest)) w'"
    by blast
  have run: "arrivals c v chans (x # rest) w = (w', [])"
    by (simp add: x settle w'(1))
  have buf: "notifyBuffer w' = notifyBuffer w @ map pair_of (x # rest)"
    by (simp add: w'(2) scheduleNotify_accepted(2) [OF free] x pair_of_def)
  have last: "armed c (time_of (last (x # rest))) w'"
  proof (cases "rest = []")
    case True
    with w'(1) armed1 show ?thesis by (simp add: x time_of_def)
  next
    case False
    with w'(4) show ?thesis by simp
  qed
  from run buf w'(3) last show ?case by blast
qed

lemma find_tid:
  "distinct (map tid ts) \<Longrightarrow> x \<in> set ts \<Longrightarrow> find (\<lambda>t. tid t = tid x) ts = Some x"
  by (induction ts) (auto simp: image_iff)

lemma pending_clearTimeout:
  "pending k (clearTimeout h w) = filter (\<lambda>x. tid x \<noteq> h) (pending k w)"
  unfolding pending_def clearTimeout_def by (simp add: conj_commute)

lemma fire_armed:
  assumes "wf_timers w" and "pending FlushCb w = [Timer h d FlushCb]" and "notifyBuffer w \<noteq> []"
  shows "\<exists>w' fx. fire v h chans w = (w', fx) \<and> flushes fx = [byGuild (notifyBuffer w)]
           \<and> notifyBuffer w' = [] \<and> pending FlushCb w' = []"
proof -
  have "Timer h d FlushCb \<in> set (pending FlushCb w)" using assms(2) by simp
  then have mem: "Timer h d FlushCb \<in> set (timers w)" by (simp add: pending_def)
  from assms(1) have "distinct (map tid (timers w))" by (simp add: wf_timers_def)
  from find_tid [OF this mem]
  have found: "find (\<lambda>t. tid t = h) (timers w) = Some (Timer h d FlushCb)" by simp
  have gone: "pending FlushCb (clearTimeout h w) = []"
    by (simp add: pending_clearTimeout assms(2))
  have gone': "pending FlushCb ((clearTimeout h w)\<lparr> notifyBuffer := [] \<rparr>) = []"
    using gone by (simp add: pending_def)
  have buf: "notifyBuffer (clearTimeout h w) = notifyBuffer w" by (simp add: clearTimeout_def)
  show ?thesis
    using gone' assms(3)
    by (simp add: fire_def found flushNotifyBuffer_def buf flushes_Sent)
qed

lemma spaced_take: "spaced d ts \<Longrightarrow> spaced d (take k ts)"
proof (induction d ts arbitrary: k rule: spaced.induct)
  case (1 d)
  then show ?case by simp
next
  case (2 d t)
  then show ?case by (cases k) simp_all
next
  case (3 d t t' ts)
  show ?case
  proof (cases k)
    case 0
    then show ?thesis by simp
  next
    case (Suc j)
    from "3.IH" [of j] "3.prems" have "spaced d (take j (t' # ts))" by simp
    with "3.prems" Suc show ?thesis by (cases j) simp_all
  qed
qed

lemma all_accepted_take:
  "all_accepted c v chans calls w \<Longrightarrow> all_accepted c v chans (take k calls) w"
proof (induction calls arbitrary: w k)
  case Nil
  then show ?case by simp
next
  case (Cons x rest)
  obtain m g t where x: "x = (m, g, t)" by (cases x) auto
  show ?case
  proof (cases k)
    case 0
    then show ?thesis by simp
  next
    case (Suc j)
    with Cons show ?thesis by (auto simp: x split: prod.splits)
  qed
qed

text \<open>
  Claim C4. Start with an empty buffer and no flush timer pending, and let \<open>N \<ge> 1\<close>
  calls arrive, all accepted, in time order and no two consecutive ones more than the
  debounce interval apart. Then no flush happens while they arrive; afterwards the buffer
  holds the \<open>N\<close> pairs and exactly one flush timer is pending, due one debounce interval
  after the last call. When it fires there is one flush event, whose batches have
  distinct guilds and hold exactly the \<open>N\<close> pairs, and then the buffer is empty and no
  flush timer is left. After each of the calls exactly one flush timer is pending, due
  one interval after that call: an arrival replaces the timer.
\<close>

theorem debounce_single_flush:
  assumes "wf_timers w" and "notifyBuffer w = []" and "pending FlushCb w = []"
    and "calls \<noteq> []"
    and "spaced (notifyDebounceMs c) (map time_of calls)"
    and "all_accepted c v chans calls w"
  shows "(\<exists>w' h. arrivals c v chans calls w = (w', [])
            \<and> notifyBuffer w' = map pair_of calls
            \<and> pending FlushCb w' = [Timer h (time_of (last calls) + notifyDebounceMs c) FlushCb]
            \<and> debounceTimer w' = Some h
            \<and> (\<exists>w'' fx b. fire v h chans w' = (w'', fx) \<and> flushes fx = [b]
                  \<and> mset (pairs_of b) = mset (map pair_of calls)
                  \<and> distinct (map fst b)
                  \<and> notifyBuffer w'' = [] \<and> pending FlushCb w'' = []))
         \<and> (\<forall>k. 0 < k \<and> k \<le> length calls \<longrightarrow>
               (\<exists>wk h. arrivals c v chans (take k calls) w = (wk, [])
                  \<and> pending FlushCb wk
                      = [Timer h (time_of (calls ! (k - 1)) + notifyDebounceMs c) FlushCb]))"
proof (intro conjI allI impI)
  have start: "(pending FlushCb w = [] \<and> spaced (notifyDebounceMs c) (map time_of calls))
               \<or> (\<exists>t0. armed c t0 w \<and> spaced (notifyDebounceMs c) (t0 # map time_of calls))"
    using assms(3,5) by simp
  from arrivals_quiet [OF start assms(1,6)] assms(2,4) obtain w' where w':
    "arrivals c v chans calls w = (w', [])" "notifyBuffer w' = map pair_of calls"
    "wf_timers w'" "armed c (time_of (last calls)) w'"
    by auto
  from w'(4) obtain h where h:
    "pending FlushCb w' = [Timer h (time_of (last calls) + notifyDebounceMs c) FlushCb]"
    "debounceTimer w' = Some h"
    by (auto simp: armed_def)
  from w'(2) assms(4) have "notifyBuffer w' \<noteq> []" by simp
  from fire_armed [OF w'(3) h(1) this, of v chans] obtain w'' fx where f:
    "fire v h chans w' = (w'', fx)" "flushes fx = [byGuild (notifyBuffer w')]"
    "notifyBuffer w'' = []" "pending FlushCb w'' = []"
    by blast
  have "mset (pairs_of (byGuild (notifyBuffer w'))) = mset (map pair_of calls)"
    by (simp add: byGuild_mset w'(2))
  with w' h f byGuild_distinct [of "notifyBuffer w'"]
  show "\<exists>w' h. arrivals c v chans calls w = (w', [])
            \<and> notifyBuffer w' = map pair_of calls
            \<and> pending FlushCb w' = [Timer h (time_of (last calls) + notifyDebounceMs c) FlushCb]
            \<and> debounceTimer w' = Some h
            \<and> (\<exists>w'' fx b. fire v h chans w' = (w'', fx) \<and> flushes fx = [b]
                  \<and> mset (pairs_of b) = mset (map pair_of calls)
                  \<and> distinct (map fst b)
                  \<and> notifyBuffer w'' = [] \<and> pending FlushCb w'' = [])"
    by blast
next
  fix k
  assume k: "0 < k \<and> k \<le> length calls"
  let ?pre = "take k calls"
  have ne: "?pre \<noteq> []" using k by auto
  have "spaced (notifyDebounceMs c) (take k (map time_of calls))"
    using assms(5) by (rule spaced_take)
  then have start: "(pending FlushCb w = [] \<and> spaced (notifyDebounceMs c) (map time_of ?pre))
               \<or> (\<exists>t0. armed c t0 w \<and> spaced (notifyDebounceMs c) (t0 # map time_of ?pre))"
    using assms(3) by (simp add: take_map)
  have acc: "all_accepted c v chans ?pre w" using assms(6) by (rule all_accepted_take)
  from arrivals_quiet [OF start assms(1) acc] ne obtain wk where wk:
    "arrivals c v chans ?pre w = (wk, [])" "armed c (time_of (last ?pre)) wk"
    by auto
  have "last ?pre = calls ! (k - 1)"
    using k ne by (simp add: last_conv_nth min_absorb2)
  with wk show "\<exists>wk h. arrivals c v chans (take k calls) w = (wk, [])
                  \<and> pending FlushCb wk
                      = [Timer h (time_of (calls ! (k - 1)) + notifyDebounceMs c) FlushCb]"
    by (auto simp: armed_def)
qed

lemma burst_accepted: "all_accepted cfg_default Batched (\<lambda>_. ChanNull) burst fresh_world"
  by (simp add: burst_def fresh_world_def initial_def cfg_default_def alice_def bob_def carol_def
      settle_def overdue_def pending_def scheduleNotify_def setTimeout_def clearTimeout_def
      cooling_def Let_def)

theorem debounce_single_flush_witness:
  "wf_timers fresh_world \<and> notifyBuffer fresh_world = [] \<and> pending FlushCb fresh_world = []
   \<and> burst \<noteq> []
   \<and> spaced (notifyDebounceMs cfg_default) (map time_of burst)
   \<and> all_accepted cfg_default Batched (\<lambda>_. ChanNull) burst fresh_world
   \<and> (\<exists>w' h. arrivals cfg_default Batched (\<lambda>_. ChanNull) burst fresh_world = (w', [])
         \<and> notifyBuffer w' = [(''guildA'', alice), (''guildB'', carol), (''guildA'', bob)]
         \<and> pending FlushCb w' = [Timer h 1700000613000 FlushCb]
         \<and> (\<exists>w'' fx b. fire Batched h (\<lambda>_. ChanNull) w' = (w'', fx) \<and> flushes fx = [b]
               \<and> mset (pairs_of b)
                   = mset [(''guildA'', alice), (''guildB'', carol), (''guildA'', bob)]
               \<and> notifyBuffer w'' = [] \<and> pending FlushCb w'' = []))"
proof -
  have h1: "wf_timers fresh_world"
    by (simp add: wf_timers_def fresh_world_def initial_def)
  have h2: "notifyBuffer fresh_world = []"
    by (simp add: fresh_world_def initial_def)
  have h3: "pending FlushCb fresh_world = []"
    by (simp add: pending_def fresh_world_def initial_def)
  have h4: "burst \<noteq> []"
    by (simp add: burst_def)
  have h5: "spaced (notifyDebounceMs cfg_default) (map time_of burst)"
    by (simp add: burst_def time_of_def cfg_default_def)
  have pairs: "map pair_of burst = [(''guildA'', alice), (''guildB'', carol), (''guildA'', bob)]"
    by (simp add: burst_def pair_of_def)
  have tl: "time_of (last burst) + notifyDebounceMs cfg_default = 1700000613000"
    by (simp add: burst_def time_of_def cfg_default_def)
  from debounce_single_flush [OF h1 h2 h3 h4 h5 burst_accepted]
  have "\<exists>w' h. arrivals cfg_default Batched (\<lambda>_. ChanNull) burst fresh_world = (w', [])
         \<and> notifyBuffer w' = [(''guildA'', alice), (''guildB'', carol), (''guildA'', bob)]
         \<and> pending FlushCb w' = [Timer h 1700000613000 FlushCb]
         \<and> (\<exists>w'' fx b. fire Batched h (\<lambda>_. ChanNull) w' = (w'', fx) \<and> flushes fx = [b]
               \<and> mset (pairs_of b)
                   = mset [(''guildA'', alice), (''guildB'', carol), (''guildA'', bob)]
               \<and> notifyBuffer w'' = [] \<and> pending FlushCb w'' = [])"
    unfolding pairs tl by blast
  with h1 h2 h3 h4 h5 burst_accepted show ?thesis by blast
qed

subsection \<open>Membership store: load\<close>

lemma load_missing:
  assumes "persistenceFile w \<in> {NoFile, Unreadable, Corrupt}"
  shows "loadPersistence w = Inr (w, False)"
  using assms by (auto simp: loadPersistence_def load_try_def)

lemma load_returns: "\<exists>w' existed. loadPersistence w = Inr (w', existed)"
proof -
  obtain km r where "load_try (persistenceFile w) (knownMembers w) = (km, r)"
    by (cases "load_try (persistenceFile w) (knownMembers w)") auto
  then show ?thesis by (cases r) (auto simp add: loadPersistence_def)
qed

lemma load_caught:
  assumes "load_try (persistenceFile w) (knownMembers w) = (km, Some e)"
  shows "loadPersistence w = Inr (w\<lparr> knownMembers := km \<rparr>, False)"
  using assms by (simp add: loadPersistence_def)

text \<open>
  Claim C6. When the file is missing, cannot be read, or holds text that is not JSON,
  \<open>loadPersistence\<close> returns \<open>false\<close> and leaves the state as it was. Whatever the
  read, the parse or the construction of a set throws, it is caught and the result is
  \<open>false\<close>. On no disk state does \<open>loadPersistence\<close> raise, and the ready handler runs
  to its end.
\<close>

theorem load_fails_soft:
  "(persistenceFile w \<in> {NoFile, Unreadable, Corrupt} \<longrightarrow> loadPersistence w = Inr (w, False))
   \<and> (\<forall>km e. load_try (persistenceFile w) (knownMembers w) = (km, Some e)
         \<longrightarrow> loadPersistence w = Inr (w\<lparr> knownMembers := km \<rparr>, False))
   \<and> (\<exists>w' existed. loadPersistence w = Inr (w', existed))
   \<and> (\<exists>w'. onReady guilds now w = Inr w')"
proof -
  obtain w' existed where "loadPersistence w = Inr (w', existed)"
    using load_returns by blast
  then have "\<exists>w'. onReady guilds now w = Inr w'"
    by (simp add: onReady_def)
  then show ?thesis using load_missing load_returns load_caught by blast
qed

theorem load_fails_soft_witness:
  "loadPersistence (initial NoFile None) = Inr (initial NoFile None, False)
   \<and> loadPersistence (initial Unreadable None) = Inr (initial Unreadable None, False)
   \<and> loadPersistence two_guilds = Inr (two_guilds, False)
   \<and> persistenceFile two_guilds = Corrupt"
proof -
  have "persistenceFile (initial NoFile None) \<in> {NoFile, Unreadable, Corrupt}"
    and "persistenceFile (initial Unreadable None) \<in> {NoFile, Unreadable, Corrupt}"
    and "persistenceFile two_guilds \<in> {NoFile, Unreadable, Corrupt}"
    and "persistenceFile two_guilds = Corrupt"
    by (simp_all add: initial_def two_guilds_def)
  then show ?thesis
    using load_fails_soft [of "initial NoFile None"] load_fails_soft [of "initial Unreadable None"]
      load_fails_soft [of two_guilds]
    by blast
qed

subsection \<open>Membership store: round trip\<close>

lemma fold_set_add:
  "distinct (filter is_prim (acc @ xs)) \<Longrightarrow> fold set_add xs acc = acc @ xs"
proof (induction xs arbitrary: acc)
  case Nil
  then show ?case by simp
next
  case (Cons x xs)
  from Cons.prems have "\<not> set_has acc x" by (auto simp: set_has_def)
  then have "set_add x acc = acc @ [x]" by (simp add: set_add_def)
  moreover from Cons.prems have "distinct (filter is_prim ((acc @ [x]) @ xs))" by simp
  ultimately show ?case using Cons.IH [of "acc @ [x]"] by simp
qed

lemma new_Set_Array_from: "wf_set s \<Longrightarrow> new_Set (JArr (Array_from s)) = Inr s"
  using fold_set_add [of "[]" s] by (simp add: wf_set_def Array_from_def)

lemma update_fresh: "k \<notin> fst ` set al \<Longrightarrow> AList.update k v al = al @ [(k, v)]"
  by (induction al) auto

lemma load_loop_dump:
  assumes "distinct (map fst (acc @ km))" and "\<forall>s \<in> snd ` set km. wf_set s"
  shows "load_loop (map (\<lambda>(g, s). (g, JArr (Array_from s))) km) acc = (acc @ km, None)"
  using assms
proof (induction km arbitrary: acc)
  case Nil
  then show ?case by simp
next
  case (Cons p km)
  obtain g s where p: "p = (g, s)" by (cases p)
  from Cons.prems(2) have s: "wf_set s" by (simp add: p)
  from Cons.prems(1) have "g \<notin> fst ` set acc" by (auto simp: p)
  then have upd: "AList.update g s acc = acc @ [(g, s)]" by (rule update_fresh)
  from Cons.prems have "distinct (map fst ((acc @ [(g, s)]) @ km))"
    and "\<forall>s \<in> snd ` set km. wf_set s"
    by (simp_all add: p)
  from Cons.IH [OF this] show ?case
    by (simp add: p new_Set_Array_from [OF s] upd del: new_Set.simps)
qed

lemma load_dump:
  assumes "wf_known km" and "persistenceFile w = Json (dump km)" and "knownMembers w = []"
  shows "loadPersistence w = Inr (w\<lparr> knownMembers := km \<rparr>, True)"
proof -
  from assms(1) have "distinct (map fst ([] @ km))" and "\<forall>s \<in> snd ` set km. wf_set s"
    by (simp_all add: wf_known_def)
  from load_loop_dump [OF this] show ?thesis
    by (simp add: loadPersistence_def load_try_def assms(2,3) dump_def)
qed

lemma find_fresh:
  "\<forall>t \<in> set ts. tid t < n \<Longrightarrow> find (\<lambda>t. tid t = n) (ts @ [Timer n d k]) = Some (Timer n d k)"
  by (induction ts) auto

lemma save_then_write:
  assumes "wf_timers w" and "\<not> saveScheduled w" and "writes w = []"
  shows "\<exists>w3 fx. run c v [EvSave now, EvFire (nextTimer w) chans, EvWriteDone WriteOk] w = (w3, fx)
           \<and> persistenceFile w3 = Json (dump (knownMembers w))
           \<and> knownMembers w3 = knownMembers w"
proof -
  let ?w1 = "savePersistence now w"
  have t1: "timers ?w1 = timers w @ [Timer (nextTimer w) (now + 800) SaveCb]"
    and k1: "knownMembers ?w1 = knownMembers w" and wr1: "writes ?w1 = writes w"
    using assms(2) by (simp_all add: savePersistence_def setTimeout_def)
  from assms(1) have "\<forall>t \<in> set (timers w). tid t < nextTimer w" by (simp add: wf_timers_def)
  then have found: "find (\<lambda>t. tid t = nextTimer w) (timers ?w1)
                    = Some (Timer (nextTimer w) (now + 800) SaveCb)"
    unfolding t1 by (rule find_fresh)
  let ?w2 = "saveCallback (clearTimeout (nextTimer w) ?w1)"
  have f: "fire v (nextTimer w) chans ?w1 = (?w2, [WriteStarted (dump (knownMembers w))])"
    by (simp add: fire_def found clearTimeout_def k1)
  have wr2: "writes ?w2 = [dump (knownMembers w)]"
    by (simp add: saveCallback_def clearTimeout_def wr1 k1 assms(3))
  have k2: "knownMembers ?w2 = knownMembers w"
    by (simp add: saveCallback_def clearTimeout_def k1)
  have "persistenceFile (writeDone WriteOk ?w2) = Json (dump (knownMembers w))"
    and "knownMembers (writeDone WriteOk ?w2) = knownMembers w"
    by (simp_all add: writeDone_def wr2 k2)
  then show ?thesis by (simp add: f)
qed

text \<open>
  Claim C5. Take a state whose \<open>knownMembers\<close> is well formed and in which no save is
  scheduled or in flight. Request a save, let its timer fire and its write succeed, then
  load the file into a fresh process. The load reports that the file existed, and the
  loaded \<open>knownMembers\<close> is the original as a mapping from guild to set of identifiers.
\<close>

theorem persistence_round_trip:
  assumes "wf_known (knownMembers w)" and "wf_timers w" and "\<not> saveScheduled w"
    and "writes w = []"
  shows "\<exists>w3 fx w4.
           run c v [EvSave now, EvFire (nextTimer w) chans, EvWriteDone WriteOk] w = (w3, fx)
           \<and> loadPersistence (initial (persistenceFile w3) r) = Inr (w4, True)
           \<and> as_mapping (knownMembers w4) = as_mapping (knownMembers w)
           \<and> (\<forall>g. set (known (knownMembers w4) g) = set (known (knownMembers w) g))"
proof -
  from save_then_write [OF assms(2,3,4)] obtain w3 fx where w3:
    "run c v [EvSave now, EvFire (nextTimer w) chans, EvWriteDone WriteOk] w = (w3, fx)"
    "persistenceFile w3 = Json (dump (knownMembers w))"
    by blast
  let ?fresh = "initial (persistenceFile w3) r"
  have "persistenceFile ?fresh = Json (dump (knownMembers w))" and "knownMembers ?fresh = []"
    by (simp_all add: initial_def w3(2))
  from load_dump [OF assms(1) this]
  have "loadPersistence ?fresh = Inr (?fresh\<lparr> knownMembers := knownMembers w \<rparr>, True)" .
  with w3(1) show ?thesis by simp
qed

theorem persistence_round_trip_witness:
  "wf_known (knownMembers two_guilds) \<and> wf_timers two_guilds \<and> \<not> saveScheduled two_guilds
   \<and> writes two_guilds = []
   \<and> (\<exists>w3 fx w4.
         run cfg_default Batched
           [EvSave 1700000000000, EvFire (nextTimer two_guilds) (\<lambda>_. ChanNull), EvWriteDone WriteOk]
           two_guilds = (w3, fx)
         \<and> loadPersistence (initial (persistenceFile w3) None) = Inr (w4, True)
         \<and> as_mapping (knownMembers w4)
             = as_mapping [(''guildA'', [JStr ''1001'', JStr ''1002'']), (''guildB'', [])])"
proof -
  have h1: "wf_known (knownMembers two_guilds)"
    by (simp add: wf_known_def wf_set_def two_guilds_def initial_def)
  have h2: "wf_timers two_guilds"
    by (simp add: wf_timers_def two_guilds_def initial_def)
  have h3: "\<not> saveScheduled two_guilds"
    by (simp add: two_guilds_def initial_def)
  have h4: "writes two_guilds = []"
    by (simp add: two_guilds_def initial_def)
  have km: "knownMembers two_guilds = [(''guildA'', [JStr ''1001'', JStr ''1002'']), (''guildB'', [])]"
    by (simp add: two_guilds_def initial_def)
  from persistence_round_trip [OF h1 h2 h3 h4, of cfg_default Batched 1700000000000 "\<lambda>_. ChanNull" None]
  have "\<exists>w3 fx w4.
         run cfg_default Batched
           [EvSave 1700000000000, EvFire (nextTimer two_guilds) (\<lambda>_. ChanNull), EvWriteDone WriteOk]
           two_guilds = (w3, fx)
         \<and> loadPersistence (initial (persistenceFile w3) None) = Inr (w4, True)
         \<and> as_mapping (knownMembers w4)
             = as_mapping [(''guildA'', [JStr ''1001'', JStr ''1002'']), (''guildB'', [])]"
    unfolding km by blast
  with h1 h2 h3 h4 show ?thesis by blast
qed

subsection \<open>Known sets only grow\<close>

lemma set_set_add: "set (set_add x s) = insert x (set s)"
  by (auto simp: set_add_def set_has_def)

lemma known_update:
  "known (AList.update g s km) g' = (if g' = g then s else known km g')"
  by (simp add: known_def update_conv')

lemma known_ensure_entry: "known (knownMembers (ensure_entry g w)) g' = known (knownMembers w) g'"
  by (auto simp: ensure_entry_def known_update) (simp add: known_def)

lemma ensure_entry_other: "(ensure_entry g w)\<lparr> knownMembers := knownMembers w \<rparr> = w"
  by (simp add: ensure_entry_def)

lemma ensure_entry_present: "map_of (knownMembers (ensure_entry g w)) g \<noteq> None"
  by (simp add: ensure_entry_def update_conv')

lemma mark_known_ok:
  assumes "map_of km g \<noteq> None"
  shows "\<exists>km'. mark_known g i km = Inr km'
           \<and> known km' g = set_add (JStr i) (known km g)
           \<and> (\<forall>g'. g' \<noteq> g \<longrightarrow> known km' g' = known km g')
           \<and> map_of km' g \<noteq> None"
  using assms by (auto simp: mark_known_def known_update update_conv') (simp add: known_def)

lemma mark_all_ok:
  assumes "map_of km g \<noteq> None"
  shows "\<exists>km'. mark_all g ms km = Inr km'
           \<and> set (known km' g) = set (known km g) \<union> (\<lambda>m. JStr (mid m)) ` set ms
           \<and> (\<forall>g'. g' \<noteq> g \<longrightarrow> known km' g' = known km g')
           \<and> map_of km' g \<noteq> None"
  using assms
proof (induction ms arbitrary: km)
  case Nil
  then show ?case by simp
next
  case (Cons m ms)
  from mark_known_ok [OF Cons.prems, of "mid m"] obtain km1 where km1:
    "mark_known g (mid m) km = Inr km1"
    "known km1 g = set_add (JStr (mid m)) (known km g)"
    "\<forall>g'. g' \<noteq> g \<longrightarrow> known km1 g' = known km g'"
    "map_of km1 g \<noteq> None"
    by blast
  from Cons.IH [OF km1(4)] obtain km' where km':
    "mark_all g ms km1 = Inr km'"
    "set (known km' g) = set (known km1 g) \<union> (\<lambda>m. JStr (mid m)) ` set ms"
    "\<forall>g'. g' \<noteq> g \<longrightarrow> known km' g' = known km1 g'"
    "map_of km' g \<noteq> None"
    by blast
  have "mark_all g (m # ms) km = Inr km'" by (simp add: km1(1) km'(1))
  moreover have "set (known km' g) = set (known km g) \<union> (\<lambda>m. JStr (mid m)) ` set (m # ms)"
    by (simp add: km'(2) km1(2) set_set_add)
  moreover have "\<forall>g'. g' \<noteq> g \<longrightarrow> known km' g' = known km g'"
    using km'(3) km1(3) by simp
  ultimately show ?case using km'(4) by blast
qed

lemma scheduleNotify_known: "knownMembers (scheduleNotify c m g now w) = knownMembers w"
  by (cases "cooling c w (mid m) now")
     (simp_all add: scheduleNotify_dropped scheduleNotify_accepted(3))

lemma forward_all_known: "knownMembers (forward_all c g ms now w) = knownMembers w"
  unfolding forward_all_def by (induction ms arbitrary: w) (simp_all add: scheduleNotify_known)

lemma savePersistence_known: "knownMembers (savePersistence now w) = knownMembers w"
  by (simp add: savePersistence_def setTimeout_def)

subsection \<open>What a run of scheduler calls leaves behind\<close>

lemma scheduleNotify_buffer:
  "notifyBuffer (scheduleNotify c m g now w)
   = (if cooling c w (mid m) now then notifyBuffer w else notifyBuffer w @ [(g, m)])"
  by (simp add: scheduleNotify_dropped scheduleNotify_accepted(2))

lemma scheduleNotify_last:
  "lastNotified (scheduleNotify c m g now w)
   = (if cooling c w (mid m) now then lastNotified w else (lastNotified w)(mid m \<mapsto> now))"
  by (simp add: scheduleNotify_dropped scheduleNotify_accepted(1))

lemma calls_buffer_upper:
  "set (notifyBuffer (fold (\<lambda>m. scheduleNotify c m g now) ms w))
   \<subseteq> set (notifyBuffer w) \<union> Pair g ` set ms"
proof (induction ms arbitrary: w)
  case Nil
  then show ?case by simp
next
  case (Cons x ms)
  have "set (notifyBuffer (scheduleNotify c x g now w)) \<subseteq> set (notifyBuffer w) \<union> {(g, x)}"
    by (auto simp: scheduleNotify_buffer)
  with Cons.IH [of "scheduleNotify c x g now w"] show ?case by auto
qed

lemma calls_buffer_lower:
  "set (notifyBuffer w) \<subseteq> set (notifyBuffer (fold (\<lambda>m. scheduleNotify c m g now) ms w))"
proof (induction ms arbitrary: w)
  case Nil
  then show ?case by simp
next
  case (Cons x ms)
  have "set (notifyBuffer w) \<subseteq> set (notifyBuffer (scheduleNotify c x g now w))"
    by (auto simp: scheduleNotify_buffer)
  with Cons.IH [of "scheduleNotify c x g now w"] show ?case by auto
qed

lemma calls_last_other:
  "\<forall>x \<in> set ms. mid x \<noteq> i \<Longrightarrow>
   lastNotified (fold (\<lambda>m. scheduleNotify c m g now) ms w) i = lastNotified w i"
  by (induction ms arbitrary: w) (auto simp: scheduleNotify_last)

lemma calls_last_now:
  "lastNotified w i = Some now \<Longrightarrow>
   lastNotified (fold (\<lambda>m. scheduleNotify c m g now) ms w) i = Some now"
  by (induction ms arbitrary: w) (simp_all add: scheduleNotify_last)

lemma calls_accept:
  assumes "m \<in> set ms" and "\<not> cooling c w (mid m) now"
    and "\<forall>x \<in> set ms. mid x = mid m \<longrightarrow> x = m"
  shows "(g, m) \<in> set (notifyBuffer (fold (\<lambda>m. scheduleNotify c m g now) ms w))
         \<and> lastNotified (fold (\<lambda>m. scheduleNotify c m g now) ms w) (mid m) = Some now"
  using assms
proof (induction ms arbitrary: w)
  case Nil
  then show ?case by simp
next
  case (Cons x ms)
  let ?w1 = "scheduleNotify c x g now w"
  show ?case
  proof (cases "x = m")
    case True
    with Cons.prems(2) have "(g, m) \<in> set (notifyBuffer ?w1)" and "lastNotified ?w1 (mid m) = Some now"
      by (simp_all add: scheduleNotify_buffer scheduleNotify_last)
    with calls_buffer_lower [of ?w1 c g now ms] calls_last_now [of ?w1 "mid m" now c g ms]
    show ?thesis by auto
  next
    case False
    with Cons.prems(3) have ne: "mid x \<noteq> mid m" by auto
    then have "lastNotified ?w1 (mid m) = lastNotified w (mid m)"
      by (simp add: scheduleNotify_last)
    with Cons.prems(2) have free: "\<not> cooling c ?w1 (mid m) now" by (simp add: cooling_def)
    from False Cons.prems(1) have "m \<in> set ms" by simp
    moreover from Cons.prems(3) have "\<forall>x \<in> set ms. mid x = mid m \<longrightarrow> x = m" by simp
    ultimately show ?thesis using Cons.IH [of ?w1] free by simp
  qed
qed

subsection \<open>Reconciler\<close>

lemma pollFetched_ok:
  assumes "map_of (knownMembers w) (gid g) \<noteq> None"
  shows "\<exists>w'. pollFetched c g fetched now w
               = (w', filter (recent (startupTs w now)) (diffNewMembers (knownMembers w) (gid g) fetched))
           \<and> set (known (knownMembers w') (gid g))
               = set (known (knownMembers w) (gid g))
                 \<union> (\<lambda>m. JStr (mid m)) ` set (diffNewMembers (knownMembers w) (gid g) fetched)
           \<and> (\<forall>g'. g' \<noteq> gid g \<longrightarrow> known (knownMembers w') g' = known (knownMembers w) g')"
proof (cases "diffNewMembers (knownMembers w) (gid g) fetched = []")
  case True
  then show ?thesis by (simp add: pollFetched_def)
next
  case False
  let ?new = "diffNewMembers (knownMembers w) (gid g) fetched"
  from mark_all_ok [OF assms, of ?new] obtain km where km:
    "mark_all (gid g) ?new (knownMembers w) = Inr km"
    "set (known km (gid g)) = set (known (knownMembers w) (gid g)) \<union> (\<lambda>m. JStr (mid m)) ` set ?new"
    "\<forall>g'. g' \<noteq> gid g \<longrightarrow> known km g' = known (knownMembers w) g'"
    by blast
  let ?w1 = "savePersistence now (w\<lparr> knownMembers := km \<rparr>)"
  let ?real = "filter (recent (startupTs w now)) ?new"
  have run: "pollFetched c g fetched now w = (forward_all c (gid g) ?real now ?w1, ?real)"
    using False by (simp add: pollFetched_def km(1) startupTs_def Let_def)
  have "knownMembers (forward_all c (gid g) ?real now ?w1) = km"
    by (simp add: forward_all_known savePersistence_known)
  with run km(2,3) show ?thesis by simp
qed

lemma pollFetched_calls:
  assumes "map_of (knownMembers w) (gid g) \<noteq> None"
    and "diffNewMembers (knownMembers w) (gid g) fetched \<noteq> []"
  shows "\<exists>km. pollFetched c g fetched now w
              = (fold (\<lambda>x. scheduleNotify c x (gid g) now)
                   (filter (recent (startupTs w now)) (diffNewMembers (knownMembers w) (gid g) fetched))
                   (savePersistence now (w\<lparr> knownMembers := km \<rparr>)),
                 filter (recent (startupTs w now)) (diffNewMembers (knownMembers w) (gid g) fetched))"
proof -
  let ?new = "diffNewMembers (knownMembers w) (gid g) fetched"
  from mark_all_ok [OF assms(1), of ?new] obtain km where
    "mark_all (gid g) ?new (knownMembers w) = Inr km" by blast
  with assms(2) show ?thesis
    by (auto simp: pollFetched_def startupTs_def forward_all_def Let_def)
qed

lemma recent_iff:
  "recent s m \<longleftrightarrow> \<not> truthy (joinedTimestamp m) \<or> (\<exists>t. joinedTimestamp m = Some t \<and> s - 5000 \<le> t)"
  by (cases "joinedTimestamp m") (simp_all add: recent_def)

lemma pollPrecheck_skip:
  assumes "num_or_0 (memberCount g) \<le> int (set_size (known (knownMembers w) (gid g)))"
  shows "pollPrecheck g w = (ensure_entry (gid g) w, False)"
  using assms by (simp add: pollPrecheck_def known_ensure_entry)

lemma pollPrecheck_go:
  assumes "int (set_size (known (knownMembers w) (gid g))) < num_or_0 (memberCount g)"
  shows "pollPrecheck g w = (ensure_entry (gid g) w, True)"
  using assms by (simp add: pollPrecheck_def known_ensure_entry)

text \<open>
  Claim C8. When the member count that the platform reports for a guild (0 when it
  reports none) is at most the size of the guild's known set, the poll iteration stops
  at the comparison: the roster is not fetched, nobody is handed to the scheduler, every
  guild's known set is what it was, and no variable other than \<open>knownMembers\<close> changes
  (\<open>knownMembers\<close> may gain the guild's entry, an empty set).
\<close>

theorem poll_skips_without_growth:
  assumes "num_or_0 (memberCount g) \<le> int (set_size (known (knownMembers w) (gid g)))"
  shows "\<not> fetchCalled (pollGuild c g fr now w)
         \<and> forwarded (pollGuild c g fr now w) = []
         \<and> (\<forall>g'. known (knownMembers (after (pollGuild c g fr now w))) g' = known (knownMembers w) g')
         \<and> (after (pollGuild c g fr now w))\<lparr> knownMembers := knownMembers w \<rparr> = w
         \<and> snd (step c v (EvPollCheck g) w) = []"
  by (simp add: pollGuild_def pollPrecheck_skip [OF assms] known_ensure_entry ensure_entry_other)

text \<open>
  Claim C3. In a poll iteration that gets past the count comparison, a member of the
  roster that is not in the guild's known set is handed to the scheduler exactly when its
  join timestamp is absent (falsy: \<^verbatim>\<open>null\<close> or 0) or at least \<open>startupTs - 5000\<close>, where
  \<open>startupTs\<close> is the time the client became ready (the time of the poll for a client
  that has none). Handing over is the call of \<open>scheduleNotify\<close>: the state after the
  iteration is the one reached by calling \<open>scheduleNotify\<close>, in roster order, for exactly
  the roster members that are not known and pass the filter, starting from a state whose
  scheduler variables are those before the iteration. Hence a member that passes, is
  outside its cooldown and shares its identifier with no other roster entry is in the
  notification buffer afterwards, with \<open>lastNotified\<close> set to the time of the poll; a
  member that fails the filter is not put into the buffer and, when no other roster entry
  has its identifier, keeps its \<open>lastNotified\<close> entry. Either way the member is in the
  known set afterwards.
\<close>

theorem recency_filter:
  assumes "int (set_size (known (knownMembers w) (gid g))) < num_or_0 (memberCount g)"
    and "m \<in> set (roster_of g fr)"
    and "JStr (mid m) \<notin> known_ids w (gid g)"
  shows "let res = pollGuild c g fr now w;
             isRecent = (\<not> truthy (joinedTimestamp m)
                          \<or> (\<exists>t. joinedTimestamp m = Some t \<and> startupTs w now - 5000 \<le> t));
             passing = [x \<leftarrow> roster_of g fr.
                          JStr (mid x) \<notin> known_ids w (gid g) \<and> recent (startupTs w now) x]
         in (m \<in> set (forwarded res) \<longleftrightarrow> isRecent)
            \<and> JStr (mid m) \<in> known_ids (after res) (gid g)
            \<and> forwarded res = passing
            \<and> (\<exists>w1. lastNotified w1 = lastNotified w \<and> notifyBuffer w1 = notifyBuffer w
                   \<and> debounceTimer w1 = debounceTimer w
                   \<and> after res = fold (\<lambda>x. scheduleNotify c x (gid g) now) passing w1)
            \<and> (isRecent \<and> \<not> cooling c w (mid m) now
                  \<and> (\<forall>x \<in> set (roster_of g fr). mid x = mid m \<longrightarrow> x = m)
                \<longrightarrow> (gid g, m) \<in> set (notifyBuffer (after res))
                    \<and> lastNotified (after res) (mid m) = Some now)
            \<and> (\<not> isRecent
                \<longrightarrow> ((gid g, m) \<in> set (notifyBuffer (after res)) \<longrightarrow> (gid g, m) \<in> set (notifyBuffer w))
                    \<and> ((\<forall>x \<in> set (roster_of g fr). mid x = mid m \<longrightarrow> x = m)
                          \<longrightarrow> lastNotified (after res) (mid m) = lastNotified w (mid m)))"
proof -
  let ?w0 = "ensure_entry (gid g) w"
  let ?new = "diffNewMembers (knownMembers ?w0) (gid g) (roster_of g fr)"
  let ?passing = "[x \<leftarrow> roster_of g fr.
                     JStr (mid x) \<notin> known_ids w (gid g) \<and> recent (startupTs w now) x]"
  let ?R = "\<not> truthy (joinedTimestamp m)
            \<or> (\<exists>t. joinedTimestamp m = Some t \<and> startupTs w now - 5000 \<le> t)"
  have ts: "startupTs ?w0 now = startupTs w now"
    by (simp add: startupTs_def ensure_entry_def)
  have cand: "m \<in> set ?new"
    using assms(2,3)
    by (simp add: diffNewMembers_def known_ensure_entry known_ids_def set_has_def)
  then have ne: "?new \<noteq> []" by auto
  have pass: "filter (recent (startupTs ?w0 now)) ?new = ?passing"
    by (simp add: diffNewMembers_def known_ensure_entry known_ids_def set_has_def ts conj_commute)
  from pollFetched_calls [OF ensure_entry_present ne, of c now] obtain km where km:
    "pollFetched c g (roster_of g fr) now ?w0
       = (fold (\<lambda>x. scheduleNotify c x (gid g) now) ?passing
            (savePersistence now (?w0\<lparr> knownMembers := km \<rparr>)), ?passing)"
    unfolding pass by blast
  let ?w1 = "savePersistence now (?w0\<lparr> knownMembers := km \<rparr>)"
  let ?res = "pollGuild c g fr now w"
  have res: "after ?res = fold (\<lambda>x. scheduleNotify c x (gid g) now) ?passing ?w1"
    "forwarded ?res = ?passing"
    by (simp_all add: pollGuild_def pollPrecheck_go [OF assms(1)] km)
  have w1: "lastNotified ?w1 = lastNotified w" "notifyBuffer ?w1 = notifyBuffer w"
    "debounceTimer ?w1 = debounceTimer w"
    by (simp_all add: savePersistence_def setTimeout_def ensure_entry_def)
  have inpass: "m \<in> set ?passing \<longleftrightarrow> ?R"
    using assms(2,3) by (simp add: recent_iff)
  from pollFetched_ok [OF ensure_entry_present, of c g "roster_of g fr" now w] km
  have "set (known (knownMembers (after ?res)) (gid g))
          = set (known (knownMembers ?w0) (gid g)) \<union> (\<lambda>m. JStr (mid m)) ` set ?new"
    by (auto simp: res(1))
  with cand have kn: "JStr (mid m) \<in> known_ids (after ?res) (gid g)"
    by (auto simp: known_ids_def)
  have acc: "?R \<and> \<not> cooling c w (mid m) now
               \<and> (\<forall>x \<in> set (roster_of g fr). mid x = mid m \<longrightarrow> x = m)
             \<longrightarrow> (gid g, m) \<in> set (notifyBuffer (after ?res))
                 \<and> lastNotified (after ?res) (mid m) = Some now"
  proof
    assume a: "?R \<and> \<not> cooling c w (mid m) now
               \<and> (\<forall>x \<in> set (roster_of g fr). mid x = mid m \<longrightarrow> x = m)"
    with inpass have "m \<in> set ?passing" by blast
    moreover from a w1 have "\<not> cooling c ?w1 (mid m) now" by (simp add: cooling_def)
    moreover from a have "\<forall>x \<in> set ?passing. mid x = mid m \<longrightarrow> x = m" by simp
    ultimately show "(gid g, m) \<in> set (notifyBuffer (after ?res))
                     \<and> lastNotified (after ?res) (mid m) = Some now"
      unfolding res(1) by (rule calls_accept)
  qed
  have rej: "\<not> ?R
             \<longrightarrow> ((gid g, m) \<in> set (notifyBuffer (after ?res)) \<longrightarrow> (gid g, m) \<in> set (notifyBuffer w))
                 \<and> ((\<forall>x \<in> set (roster_of g fr). mid x = mid m \<longrightarrow> x = m)
                       \<longrightarrow> lastNotified (after ?res) (mid m) = lastNotified w (mid m))"
  proof (intro impI conjI)
    assume n: "\<not> ?R" and "(gid g, m) \<in> set (notifyBuffer (after ?res))"
    with calls_buffer_upper [of c "gid g" now ?passing ?w1]
    have "(gid g, m) \<in> set (notifyBuffer ?w1) \<or> m \<in> set ?passing"
      unfolding res(1) by auto
    then have "(gid g, m) \<in> set (notifyBuffer w) \<or> m \<in> set ?passing"
      unfolding w1(2) .
    with n inpass show "(gid g, m) \<in> set (notifyBuffer w)" by blast
  next
    assume n: "\<not> ?R" and u: "\<forall>x \<in> set (roster_of g fr). mid x = mid m \<longrightarrow> x = m"
    from n inpass have "m \<notin> set ?passing" by blast
    with u have "\<forall>x \<in> set ?passing. mid x \<noteq> mid m" by auto
    then have "lastNotified (fold (\<lambda>x. scheduleNotify c x (gid g) now) ?passing ?w1) (mid m)
               = lastNotified ?w1 (mid m)"
      by (rule calls_last_other)
    then show "lastNotified (after ?res) (mid m) = lastNotified w (mid m)"
      by (simp add: res(1) w1)
  qed
  have ex: "\<exists>w1. lastNotified w1 = lastNotified w \<and> notifyBuffer w1 = notifyBuffer w
                \<and> debounceTimer w1 = debounceTimer w
                \<and> after ?res = fold (\<lambda>x. scheduleNotify c x (gid g) now) ?passing w1"
    using res(1) w1 by blast
  from inpass kn res(2) ex acc rej show ?thesis
    unfolding Let_def by (simp only: res(2))
qed

lemma two_guilds_simps:
  "known (knownMembers two_guilds) ''guildA'' = [JStr ''1001'', JStr ''1002'']"
  "known_ids two_guilds ''guildA'' = {JStr ''1001'', JStr ''1002''}"
  "readyAt two_guilds = Some 1700000000000"
  "saveScheduled two_guilds = False"
  by (simp_all add: two_guilds_def initial_def known_def known_ids_def)

theorem poll_skips_without_growth_witness:
  "num_or_0 (memberCount (guildA 2)) \<le> int (set_size (known (knownMembers two_guilds) (gid (guildA 2))))
   \<and> \<not> fetchCalled (pollGuild cfg_default (guildA 2) (Fetched [alice, dave, erin]) 1700000060000 two_guilds)
   \<and> forwarded (pollGuild cfg_default (guildA 2) (Fetched [alice, dave, erin]) 1700000060000 two_guilds) = []
   \<and> known (knownMembers (after (pollGuild cfg_default (guildA 2) (Fetched [alice, dave, erin])
        1700000060000 two_guilds))) ''guildA'' = [JStr ''1001'', JStr ''1002'']"
proof -
  have h: "num_or_0 (memberCount (guildA 2))
           \<le> int (set_size (known (knownMembers two_guilds) (gid (guildA 2))))"
    by (simp add: guildA_def two_guilds_simps set_size_def)
  from poll_skips_without_growth [OF h, of cfg_default "Fetched [alice, dave, erin]" 1700000060000 Batched] h
  show ?thesis by (simp add: two_guilds_simps)
qed

theorem recency_filter_witness:
  "int (set_size (known (knownMembers two_guilds) (gid (guildA 4)))) < num_or_0 (memberCount (guildA 4))
   \<and> dave \<in> set (roster_of (guildA 4) (Fetched [alice, dave, erin]))
   \<and> erin \<in> set (roster_of (guildA 4) (Fetched [alice, dave, erin]))
   \<and> JStr (mid dave) \<notin> known_ids two_guilds (gid (guildA 4))
   \<and> JStr (mid erin) \<notin> known_ids two_guilds (gid (guildA 4))
   \<and> \<not> cooling cfg_default two_guilds (mid erin) 1700000060000
   \<and> filter (\<lambda>x. mid x = mid erin) (roster_of (guildA 4) (Fetched [alice, dave, erin])) = [erin]
   \<and> dave \<notin> set (forwarded (pollGuild cfg_default (guildA 4) (Fetched [alice, dave, erin]) 1700000060000 two_guilds))
   \<and> JStr (mid dave) \<in> known_ids (after (pollGuild cfg_default (guildA 4) (Fetched [alice, dave, erin])
        1700000060000 two_guilds)) (gid (guildA 4))
   \<and> (''guildA'', dave) \<notin> set (notifyBuffer (after (pollGuild cfg_default (guildA 4)
        (Fetched [alice, dave, erin]) 1700000060000 two_guilds)))
   \<and> erin \<in> set (forwarded (pollGuild cfg_default (guildA 4) (Fetched [alice, dave, erin]) 1700000060000 two_guilds))
   \<and> (''guildA'', erin) \<in> set (notifyBuffer (after (pollGuild cfg_default (guildA 4)
        (Fetched [alice, dave, erin]) 1700000060000 two_guilds)))
   \<and> lastNotified (after (pollGuild cfg_default (guildA 4) (Fetched [alice, dave, erin])
        1700000060000 two_guilds)) (mid erin) = Some 1700000060000"
proof -
  let ?res = "pollGuild cfg_default (guildA 4) (Fetched [alice, dave, erin]) 1700000060000 two_guilds"
  have h1: "int (set_size (known (knownMembers two_guilds) (gid (guildA 4))))
            < num_or_0 (memberCount (guildA 4))"
    by (simp add: guildA_def two_guilds_simps set_size_def)
  have h2: "dave \<in> set (roster_of (guildA 4) (Fetched [alice, dave, erin]))"
    and h2': "erin \<in> set (roster_of (guildA 4) (Fetched [alice, dave, erin]))"
    by simp_all
  have h3: "JStr (mid dave) \<notin> known_ids two_guilds (gid (guildA 4))"
    and h3': "JStr (mid erin) \<notin> known_ids two_guilds (gid (guildA 4))"
    by (simp_all add: guildA_def two_guilds_simps dave_def erin_def)
  have h4: "\<not> cooling cfg_default two_guilds (mid erin) 1700000060000"
    by (simp add: cooling_def two_guilds_def initial_def cfg_default_def)
  have h5: "\<forall>x \<in> set (roster_of (guildA 4) (Fetched [alice, dave, erin])). mid x = mid erin \<longrightarrow> x = erin"
    by (simp add: alice_def dave_def erin_def)
  have h6: "filter (\<lambda>x. mid x = mid erin) (roster_of (guildA 4) (Fetched [alice, dave, erin])) = [erin]"
    by (simp add: alice_def dave_def erin_def)
  have ts: "startupTs two_guilds 1700000060000 = 1700000000000"
    by (simp add: startupTs_def two_guilds_simps)
  have g: "gid (guildA 4) = ''guildA''" by (simp add: guildA_def)
  have empty: "notifyBuffer two_guilds = []" by (simp add: two_guilds_def initial_def)
  have old: "\<not> (\<not> truthy (joinedTimestamp dave)
              \<or> (\<exists>t. joinedTimestamp dave = Some t \<and> startupTs two_guilds 1700000060000 - 5000 \<le> t))"
    by (simp add: ts dave_def)
  have new: "\<not> truthy (joinedTimestamp erin)
              \<or> (\<exists>t. joinedTimestamp erin = Some t \<and> startupTs two_guilds 1700000060000 - 5000 \<le> t)"
    by (simp add: ts erin_def)
  from recency_filter [OF h1 h2 h3, of cfg_default 1700000060000] old
  have d: "dave \<notin> set (forwarded ?res)"
    "JStr (mid dave) \<in> known_ids (after ?res) (gid (guildA 4))"
    "(''guildA'', dave) \<in> set (notifyBuffer (after ?res)) \<longrightarrow> (''guildA'', dave) \<in> set (notifyBuffer two_guilds)"
    unfolding Let_def g by blast+
  from recency_filter [OF h1 h2' h3', of cfg_default 1700000060000] new h4 h5
  have e: "erin \<in> set (forwarded ?res)"
    "(''guildA'', erin) \<in> set (notifyBuffer (after ?res))"
    "lastNotified (after ?res) (mid erin) = Some 1700000060000"
    unfolding Let_def g by blast+
  from d(3) empty have d3: "(''guildA'', dave) \<notin> set (notifyBuffer (after ?res))" by simp
  show ?thesis
    by (intro conjI h1 h2 h2' h3 h3' h4 h6 d(1) d(2) d3 e)
qed

subsection \<open>Live join listener\<close>

lemma stale_ensure_entry: "stale (ensure_entry g w) m = stale w m"
proof -
  have "readyAt (ensure_entry g w) = readyAt w" by (simp add: ensure_entry_def)
  then show ?thesis by (simp add: stale_def)
qed

lemma join_ignored:
  assumes "mguild m = Some g"
    and "JStr (mid m) \<in> known_ids w g \<or> stale w m"
  shows "guildMemberAdd v c (Some m) ch now w = (ensure_entry g w, [])"
  using assms
  by (auto simp: guildMemberAdd_def Let_def known_ensure_entry known_ids_def set_has_def
      stale_ensure_entry)

lemma join_taken:
  assumes "mguild m = Some g"
    and "JStr (mid m) \<notin> known_ids w g" and "\<not> stale w m"
  shows "\<exists>km. mark_known g (mid m) (knownMembers (ensure_entry g w)) = Inr km
           \<and> set (known km g) = insert (JStr (mid m)) (set (known (knownMembers w) g))
           \<and> guildMemberAdd v c (Some m) ch now w
               = (case v of
                    Batched \<Rightarrow>
                      (scheduleNotify c m g now
                         (savePersistence now ((ensure_entry g w)\<lparr> knownMembers := km \<rparr>)),
                       [Forward g m])
                  | Instant \<Rightarrow>
                      (savePersistence now ((ensure_entry g w)\<lparr> knownMembers := km \<rparr>),
                       map Sent (dispatch_detailed ch (g, [m]))))"
proof -
  let ?w1 = "ensure_entry g w"
  from mark_known_ok [where km = "knownMembers ?w1" and g = g and i = "mid m",
      OF ensure_entry_present]
  obtain km where km:
    "mark_known g (mid m) (knownMembers ?w1) = Inr km"
    "known km g = set_add (JStr (mid m)) (known (knownMembers ?w1) g)"
    by blast
  have st: "stale ?w1 m = stale w m" by (rule stale_ensure_entry)
  have "\<not> set_has (known (knownMembers ?w1) g) (JStr (mid m))"
    using assms(2) by (simp add: known_ensure_entry known_ids_def set_has_def)
  then have "guildMemberAdd v c (Some m) ch now w
               = (case v of
                    Batched \<Rightarrow>
                      (scheduleNotify c m g now
                         (savePersistence now ((ensure_entry g w)\<lparr> knownMembers := km \<rparr>)),
                       [Forward g m])
                  | Instant \<Rightarrow>
                      (savePersistence now ((ensure_entry g w)\<lparr> knownMembers := km \<rparr>),
                       map Sent (dispatch_detailed ch (g, [m]))))"
    using assms(1,3) by (simp add: guildMemberAdd_def Let_def km(1) st)
  moreover have "set (known km g) = insert (JStr (mid m)) (set (known (knownMembers w) g))"
    by (simp add: km(2) set_set_add known_ensure_entry)
  ultimately show ?thesis using km(1) by blast
qed

lemma savePersistence_flag: "saveScheduled (savePersistence now w)"
  by (simp add: savePersistence_def setTimeout_def)

lemma scheduleNotify_flag: "saveScheduled (scheduleNotify c m g now w) = saveScheduled w"
  by (cases "cooling c w (mid m) now")
     (simp_all add: scheduleNotify_dropped scheduleNotify_accepted(4))

lemma savePersistence_scheduler:
  "lastNotified (savePersistence now w) = lastNotified w"
  "notifyBuffer (savePersistence now w) = notifyBuffer w"
  by (simp_all add: savePersistence_def setTimeout_def)

lemma ensure_entry_cases:
  "(map_of (knownMembers w) g \<noteq> None \<longrightarrow> ensure_entry g w = w)
   \<and> (map_of (knownMembers w) g = None
        \<longrightarrow> knownMembers (ensure_entry g w) = knownMembers w @ [(g, [])])"
proof -
  have "map_of (knownMembers w) g = None \<Longrightarrow> g \<notin> fst ` set (knownMembers w)"
    by (simp add: map_of_eq_None_iff)
  then show ?thesis by (auto simp: ensure_entry_def update_fresh)
qed

text \<open>
  A request that the scheduler accepts is sent: when the timer it arms fires and the
  guild's channel can be fetched and accepts messages, the summary for the guild carries
  the member.
\<close>

lemma byGuild_covers:
  assumes "(g, m) \<in> set buf"
  shows "\<exists>ms. (g, ms) \<in> set (byGuild buf) \<and> m \<in> set ms"
proof -
  from assms have "(g, m) \<in># mset (pairs_of (byGuild buf))" by (simp add: byGuild_mset)
  then have "(g, m) \<in> set (pairs_of (byGuild buf))" by simp
  then show ?thesis by (auto simp: pairs_of_def)
qed

lemma fire_flush_sends:
  assumes "find (\<lambda>t. tid t = h) (timers w) = Some t" and "cb t = FlushCb"
    and "(g, m) \<in> set (notifyBuffer w)"
    and "chans g = Chan send" and "\<forall>msg. send msg"
  shows "\<exists>ms. m \<in> set ms \<and> Sent (Summary g ms) \<in> set (snd (fire Batched h chans w))"
proof -
  from byGuild_covers [OF assms(3)] obtain ms where ms:
    "(g, ms) \<in> set (byGuild (notifyBuffer w))" "m \<in> set ms" by blast
  from assms(3) have ne: "notifyBuffer w \<noteq> []" by auto
  have fl: "flushNotifyBuffer (clearTimeout h w)
            = ((clearTimeout h w)\<lparr> notifyBuffer := [] \<rparr>, byGuild (notifyBuffer w))"
    using ne by (simp add: flushNotifyBuffer_def clearTimeout_def)
  have "Summary g ms \<in> set (dispatch Batched (chans (fst (g, ms))) (g, ms))"
    using assms(4,5) by simp
  with ms(1) have "Summary g ms
      \<in> set (concat (map (\<lambda>b. dispatch Batched (chans (fst b)) b) (byGuild (notifyBuffer w))))"
    by (auto intro!: bexI [of _ "(g, ms)"])
  then have "Sent (Summary g ms) \<in> set (snd (fire Batched h chans w))"
    by (simp add: fire_def assms(1,2) fl)
  with ms(2) show ?thesis by blast
qed

lemma wf_timers_savePersistence: "wf_timers w \<Longrightarrow> wf_timers (savePersistence now w)"
proof (cases "saveScheduled w")
  case True
  assume "wf_timers w"
  with True show ?thesis by (simp add: savePersistence_def)
next
  case False
  assume wf: "wf_timers w"
  then have "nextTimer w \<notin> tid ` set (timers w)" by (auto simp: wf_timers_def)
  with wf False show ?thesis
    by (auto simp: wf_timers_def savePersistence_def setTimeout_def less_Suc_eq)
qed

lemma accepted_then_sent:
  assumes "wf_timers w" and "\<not> cooling c w (mid m) now"
    and "chans g = Chan send" and "\<forall>msg. send msg"
  shows "\<exists>h ms. debounceTimer (scheduleNotify c m g now w) = Some h
           \<and> Timer h (now + notifyDebounceMs c) FlushCb \<in> set (timers (scheduleNotify c m g now w))
           \<and> m \<in> set ms
           \<and> Sent (Summary g ms) \<in> set (snd (fire Batched h chans (scheduleNotify c m g now w)))"
proof -
  let ?w' = "scheduleNotify c m g now w"
  let ?old = "case debounceTimer w of None \<Rightarrow> timers w
              | Some h \<Rightarrow> filter (\<lambda>x. tid x \<noteq> h) (timers w)"
  note acc = scheduleNotify_accepted [OF assms(2), of g]
  have "set ?old \<subseteq> set (timers w)" by (cases "debounceTimer w") auto
  with assms(1) have "\<forall>x \<in> set ?old. tid x < nextTimer w" by (auto simp: wf_timers_def)
  then have "find (\<lambda>t. tid t = nextTimer w) (?old @ [Timer (nextTimer w) (now + notifyDebounceMs c) FlushCb])
             = Some (Timer (nextTimer w) (now + notifyDebounceMs c) FlushCb)"
    by (rule find_fresh)
  then have found: "find (\<lambda>t. tid t = nextTimer w) (timers ?w')
                    = Some (Timer (nextTimer w) (now + notifyDebounceMs c) FlushCb)"
    by (simp add: acc(10))
  have isflush: "cb (Timer (nextTimer w) (now + notifyDebounceMs c) FlushCb) = FlushCb" by simp
  have inbuf: "(g, m) \<in> set (notifyBuffer ?w')" by (simp add: acc(2))
  have "\<exists>ms. m \<in> set ms
          \<and> Sent (Summary g ms) \<in> set (snd (fire Batched (nextTimer w) chans ?w'))"
    using found isflush inbuf assms(3,4) by (rule fire_flush_sends)
  then obtain ms where
    "m \<in> set ms" "Sent (Summary g ms) \<in> set (snd (fire Batched (nextTimer w) chans ?w'))"
    by auto
  moreover have "Timer (nextTimer w) (now + notifyDebounceMs c) FlushCb \<in> set (timers ?w')"
    by (simp add: acc(10))
  ultimately show ?thesis using acc(8) by blast
qed

text \<open>
  Three join events. A member that is new to its guild and joined after the client became
  ready, but was notified about 200 seconds earlier: the batched script calls the
  scheduler, which drops the request, so nothing is queued and no flush is armed. A
  member that joined long before the client became ready, in a guild without a known set:
  the event is ignored, and the guild's empty set has been created. A new member in the
  instant script, when the fetch yields no channel: no message.
\<close>

theorem join_listener_counterexample:
  "mguild alice_in_B = Some ''guildB''
   \<and> JStr (mid alice_in_B) \<notin> known_ids notified_world ''guildB''
   \<and> joinedTimestamp alice_in_B = Some 1700000200000
   \<and> readyAt notified_world = Some 1700000000000
   \<and> lastNotified notified_world (mid alice_in_B) = Some 1700000000000
   \<and> cooling cfg_default notified_world (mid alice_in_B) 1700000200500
   \<and> snd (guildMemberAdd Batched cfg_default (Some alice_in_B) ChanNull 1700000200500
            notified_world) = [Forward ''guildB'' alice_in_B]
   \<and> notifyBuffer (fst (guildMemberAdd Batched cfg_default (Some alice_in_B) ChanNull
            1700000200500 notified_world)) = []
   \<and> pending FlushCb (fst (guildMemberAdd Batched cfg_default (Some alice_in_B) ChanNull
            1700000200500 notified_world)) = []
   \<and> mguild dave = Some ''guildA''
   \<and> joinedTimestamp dave = Some 1600000000000
   \<and> readyAt fresh_world = Some 1700000000000
   \<and> knownMembers fresh_world = []
   \<and> knownMembers (fst (guildMemberAdd Batched cfg_default (Some dave) ChanNull 1700000060000
            fresh_world)) = [(''guildA'', [])]
   \<and> fst (guildMemberAdd Batched cfg_default (Some dave) ChanNull 1700000060000 fresh_world)
       \<noteq> fresh_world
   \<and> mguild erin = Some ''guildA''
   \<and> JStr (mid erin) \<notin> known_ids fresh_world ''guildA''
   \<and> joinedTimestamp erin = Some 1700000050000
   \<and> snd (guildMemberAdd Instant cfg_default (Some erin) ChanNull 1700000060000 fresh_world) = []
   \<and> notifyBuffer (fst (guildMemberAdd Instant cfg_default (Some erin) ChanNull 1700000060000
            fresh_world)) = []"
  by (simp add: guildMemberAdd_def alice_in_B_def dave_def erin_def notified_world_def
      fresh_world_def initial_def ensure_entry_def known_def known_ids_def set_has_def stale_def
      mark_known_def set_add_def savePersistence_def setTimeout_def scheduleNotify_def
      cooling_def cfg_default_def pending_def Let_def)

text \<open>
  Claim C7. A join event for a member that is already in its guild's known set, or whose
  join timestamp (present and not 0) is more than 2000 ms before the time the client
  became ready, is ignored: no message, no call of the scheduler, no save, the known sets
  as they were, and no variable other than \<open>knownMembers\<close> changed; \<open>knownMembers\<close> is
  unchanged too when the guild has a known set, and gains the guild's empty set when it
  has none. Any other join event adds the member to the known set and leaves a save
  scheduled. The batched script then calls \<open>scheduleNotify\<close>: inside the member's
  cooldown the request is dropped (buffer, \<open>lastNotified\<close> and flush timers as before);
  outside it the member is appended to the buffer, \<open>lastNotified\<close> is set, and the flush
  timer that is armed sends, when it fires and the guild's channel accepts messages, a
  summary carrying the member. The instant script sends the member's message at once
  when the channel is fetched and the send succeeds, and no message when the channel is
  missing or its fetch fails; it leaves the scheduler's variables alone.
\<close>

theorem join_listener:
  "(mguild m = Some g
      \<and> (JStr (mid m) \<in> known_ids w g
           \<or> (\<exists>t r. joinedTimestamp m = Some t \<and> t \<noteq> 0 \<and> readyAt w = Some r \<and> t < r - 2000))
      \<longrightarrow> guildMemberAdd v c (Some m) ch now w = (ensure_entry g w, [])
          \<and> (\<forall>g'. known (knownMembers (ensure_entry g w)) g' = known (knownMembers w) g')
          \<and> (ensure_entry g w)\<lparr> knownMembers := knownMembers w \<rparr> = w
          \<and> (map_of (knownMembers w) g \<noteq> None \<longrightarrow> ensure_entry g w = w)
          \<and> (map_of (knownMembers w) g = None
                \<longrightarrow> knownMembers (ensure_entry g w) = knownMembers w @ [(g, [])]))
   \<and> (mguild m = Some g
      \<and> JStr (mid m) \<notin> known_ids w g
      \<and> \<not> (\<exists>t r. joinedTimestamp m = Some t \<and> t \<noteq> 0 \<and> readyAt w = Some r \<and> t < r - 2000)
      \<longrightarrow> (\<exists>w' fx. guildMemberAdd v c (Some m) ch now w = (w', fx)
             \<and> known_ids w' g = insert (JStr (mid m)) (known_ids w g)
             \<and> saveScheduled w'
             \<and> (v = Batched \<longrightarrow>
                   fx = [Forward g m]
                   \<and> (\<exists>w2. lastNotified w2 = lastNotified w \<and> notifyBuffer w2 = notifyBuffer w
                          \<and> pending FlushCb w2 = pending FlushCb w
                          \<and> (wf_timers w \<longrightarrow> wf_timers w2)
                          \<and> w' = scheduleNotify c m g now w2)
                   \<and> (cooling c w (mid m) now \<longrightarrow>
                         notifyBuffer w' = notifyBuffer w \<and> lastNotified w' = lastNotified w
                         \<and> pending FlushCb w' = pending FlushCb w)
                   \<and> (\<not> cooling c w (mid m) now \<longrightarrow>
                         notifyBuffer w' = notifyBuffer w @ [(g, m)]
                         \<and> lastNotified w' (mid m) = Some now
                         \<and> (wf_timers w \<longrightarrow>
                              (\<forall>chans send. chans g = Chan send \<and> (\<forall>msg. send msg) \<longrightarrow>
                                 (\<exists>h ms. debounceTimer w' = Some h
                                    \<and> Timer h (now + notifyDebounceMs c) FlushCb \<in> set (timers w')
                                    \<and> m \<in> set ms
                                    \<and> Sent (Summary g ms) \<in> set (snd (fire Batched h chans w')))))))
             \<and> (v = Instant \<longrightarrow>
                   fx = map Sent (dispatch_detailed ch (g, [m]))
                   \<and> notifyBuffer w' = notifyBuffer w \<and> lastNotified w' = lastNotified w
                   \<and> (\<forall>send. ch = Chan send \<and> send (Detail m) \<longrightarrow> fx = [Sent (Detail m)])
                   \<and> (ch = ChanNull \<or> ch = ChanThrows \<longrightarrow> fx = []))))"
proof (intro conjI impI)
  assume a: "mguild m = Some g
      \<and> (JStr (mid m) \<in> known_ids w g
           \<or> (\<exists>t r. joinedTimestamp m = Some t \<and> t \<noteq> 0 \<and> readyAt w = Some r \<and> t < r - 2000))"
  then have "JStr (mid m) \<in> known_ids w g \<or> stale w m"
    by (auto simp: stale_def)
  with a show "guildMemberAdd v c (Some m) ch now w = (ensure_entry g w, [])"
    by (simp add: join_ignored)
next
  show "\<forall>g'. known (knownMembers (ensure_entry g w)) g' = known (knownMembers w) g'"
    by (simp add: known_ensure_entry)
next
  show "(ensure_entry g w)\<lparr> knownMembers := knownMembers w \<rparr> = w"
    by (rule ensure_entry_other)
next
  assume "map_of (knownMembers w) g \<noteq> None"
  then show "ensure_entry g w = w" using ensure_entry_cases by blast
next
  assume "map_of (knownMembers w) g = None"
  then show "knownMembers (ensure_entry g w) = knownMembers w @ [(g, [])]"
    using ensure_entry_cases by blast
next
  assume a: "mguild m = Some g
      \<and> JStr (mid m) \<notin> known_ids w g
      \<and> \<not> (\<exists>t r. joinedTimestamp m = Some t \<and> t \<noteq> 0 \<and> readyAt w = Some r \<and> t < r - 2000)"
  then have "\<not> stale w m"
    by (auto simp: stale_def split: option.splits)
  with a obtain km where km:
    "set (known km g) = insert (JStr (mid m)) (set (known (knownMembers w) g))"
    "guildMemberAdd v c (Some m) ch now w
       = (case v of
            Batched \<Rightarrow>
              (scheduleNotify c m g now
                 (savePersistence now ((ensure_entry g w)\<lparr> knownMembers := km \<rparr>)),
               [Forward g m])
          | Instant \<Rightarrow>
              (savePersistence now ((ensure_entry g w)\<lparr> knownMembers := km \<rparr>),
               map Sent (dispatch_detailed ch (g, [m]))))"
    using join_taken [of m g w v c ch now] by blast
  let ?w2 = "savePersistence now ((ensure_entry g w)\<lparr> knownMembers := km \<rparr>)"
  have k2: "knownMembers ?w2 = km" by (simp add: savePersistence_known)
  have l2: "lastNotified ?w2 = lastNotified w" and b2: "notifyBuffer ?w2 = notifyBuffer w"
    by (simp_all add: savePersistence_scheduler ensure_entry_def)
  have p2: "pending FlushCb ?w2 = pending FlushCb w"
    by (simp add: pending_def savePersistence_def setTimeout_def ensure_entry_def)
  have wf2: "wf_timers w \<longrightarrow> wf_timers ?w2"
  proof
    assume "wf_timers w"
    then have "wf_timers ((ensure_entry g w)\<lparr> knownMembers := km \<rparr>)"
      by (simp add: wf_timers_def ensure_entry_def)
    then show "wf_timers ?w2" by (rule wf_timers_savePersistence)
  qed
  from l2 have c2: "cooling c ?w2 (mid m) now = cooling c w (mid m) now"
    by (simp add: cooling_def)
  show "\<exists>w' fx. guildMemberAdd v c (Some m) ch now w = (w', fx)
             \<and> known_ids w' g = insert (JStr (mid m)) (known_ids w g)
             \<and> saveScheduled w'
             \<and> (v = Batched \<longrightarrow>
                   fx = [Forward g m]
                   \<and> (\<exists>w2. lastNotified w2 = lastNotified w \<and> notifyBuffer w2 = notifyBuffer w
                          \<and> pending FlushCb w2 = pending FlushCb w
                          \<and> (wf_timers w \<longrightarrow> wf_timers w2)
                          \<and> w' = scheduleNotify c m g now w2)
                   \<and> (cooling c w (mid m) now \<longrightarrow>
                         notifyBuffer w' = notifyBuffer w \<and> lastNotified w' = lastNotified w
                         \<and> pending FlushCb w' = pending FlushCb w)
                   \<and> (\<not> cooling c w (mid m) now \<longrightarrow>
                         notifyBuffer w' = notifyBuffer w @ [(g, m)]
                         \<and> lastNotified w' (mid m) = Some now
                         \<and> (wf_timers w \<longrightarrow>
                              (\<forall>chans send. chans g = Chan send \<and> (\<forall>msg. send msg) \<longrightarrow>
                                 (\<exists>h ms. debounceTimer w' = Some h
                                    \<and> Timer h (now + notifyDebounceMs c) FlushCb \<in> set (timers w')
                                    \<and> m \<in> set ms
                                    \<and> Sent (Summary g ms) \<in> set (snd (fire Batched h chans w')))))))
             \<and> (v = Instant \<longrightarrow>
                   fx = map Sent (dispatch_detailed ch (g, [m]))
                   \<and> notifyBuffer w' = notifyBuffer w \<and> lastNotified w' = lastNotified w
                   \<and> (\<forall>send. ch = Chan send \<and> send (Detail m) \<longrightarrow> fx = [Sent (Detail m)])
                   \<and> (ch = ChanNull \<or> ch = ChanThrows \<longrightarrow> fx = []))"
  proof (cases v)
    case Batched
    let ?w' = "scheduleNotify c m g now ?w2"
    have run: "guildMemberAdd v c (Some m) ch now w = (?w', [Forward g m])"
      using Batched km(2) by simp
    have kn: "known_ids ?w' g = insert (JStr (mid m)) (known_ids w g)"
      by (simp add: known_ids_def scheduleNotify_known k2 km(1))
    have fl: "saveScheduled ?w'"
      by (simp add: scheduleNotify_flag savePersistence_flag)
    have ex: "\<exists>w2. lastNotified w2 = lastNotified w \<and> notifyBuffer w2 = notifyBuffer w
                \<and> pending FlushCb w2 = pending FlushCb w
                \<and> (wf_timers w \<longrightarrow> wf_timers w2)
                \<and> ?w' = scheduleNotify c m g now w2"
      using l2 b2 p2 wf2 by blast
    have cool: "cooling c w (mid m) now \<longrightarrow>
                  notifyBuffer ?w' = notifyBuffer w \<and> lastNotified ?w' = lastNotified w
                  \<and> pending FlushCb ?w' = pending FlushCb w"
      using c2 l2 b2 p2 by (simp add: scheduleNotify_dropped)
    have free: "\<not> cooling c w (mid m) now \<longrightarrow>
                  notifyBuffer ?w' = notifyBuffer w @ [(g, m)]
                  \<and> lastNotified ?w' (mid m) = Some now
                  \<and> (wf_timers w \<longrightarrow>
                       (\<forall>chans send. chans g = Chan send \<and> (\<forall>msg. send msg) \<longrightarrow>
                          (\<exists>h ms. debounceTimer ?w' = Some h
                             \<and> Timer h (now + notifyDebounceMs c) FlushCb \<in> set (timers ?w')
                             \<and> m \<in> set ms
                             \<and> Sent (Summary g ms) \<in> set (snd (fire Batched h chans ?w')))))"
    proof (intro impI conjI allI)
      assume n: "\<not> cooling c w (mid m) now"
      then have n2: "\<not> cooling c ?w2 (mid m) now" by (simp add: c2)
      show "notifyBuffer ?w' = notifyBuffer w @ [(g, m)]"
        using n2 b2 by (simp add: scheduleNotify_accepted(2))
      show "lastNotified ?w' (mid m) = Some now"
        using n2 by (simp add: scheduleNotify_accepted(1))
      fix chans send
      assume "wf_timers w" and ch: "chans g = Chan send \<and> (\<forall>msg. send msg)"
      with wf2 have "wf_timers ?w2" by blast
      then show "\<exists>h ms. debounceTimer ?w' = Some h
                   \<and> Timer h (now + notifyDebounceMs c) FlushCb \<in> set (timers ?w')
                   \<and> m \<in> set ms
                   \<and> Sent (Summary g ms) \<in> set (snd (fire Batched h chans ?w'))"
        using n2 ch by (intro accepted_then_sent) auto
    qed
    from run kn fl ex cool free Batched show ?thesis by blast
  next
    case Instant
    have run: "guildMemberAdd v c (Some m) ch now w
               = (?w2, map Sent (dispatch_detailed ch (g, [m])))"
      using Instant km(2) by simp
    have kn: "known_ids ?w2 g = insert (JStr (mid m)) (known_ids w g)"
      by (simp add: known_ids_def k2 km(1))
    have fl: "saveScheduled ?w2" by (rule savePersistence_flag)
    have ok: "\<forall>send. ch = Chan send \<and> send (Detail m)
                \<longrightarrow> map Sent (dispatch_detailed ch (g, [m])) = [Sent (Detail m)]"
      by auto
    have bad: "ch = ChanNull \<or> ch = ChanThrows \<longrightarrow> map Sent (dispatch_detailed ch (g, [m])) = []"
      by auto
    from run kn fl ok bad l2 b2 Instant show ?thesis by blast
  qed
qed

theorem join_listener_witness:
  "mguild alice = Some ''guildA'' \<and> JStr (mid alice) \<in> known_ids two_guilds ''guildA''
   \<and> map_of (knownMembers two_guilds) ''guildA'' \<noteq> None
   \<and> guildMemberAdd Batched cfg_default (Some alice) ChanNull 1700000060000 two_guilds
       = (two_guilds, [])
   \<and> mguild dave = Some ''guildA'' \<and> joinedTimestamp dave = Some 1600000000000
   \<and> readyAt fresh_world = Some 1700000000000
   \<and> map_of (knownMembers fresh_world) ''guildA'' = None
   \<and> snd (guildMemberAdd Instant cfg_default (Some dave) (Chan (\<lambda>msg. True)) 1700000060000
            fresh_world) = []
   \<and> knownMembers (fst (guildMemberAdd Instant cfg_default (Some dave) (Chan (\<lambda>msg. True))
            1700000060000 fresh_world)) = [(''guildA'', [])]
   \<and> mguild erin = Some ''guildA'' \<and> JStr (mid erin) \<notin> known_ids two_guilds ''guildA''
   \<and> \<not> (\<exists>t r. joinedTimestamp erin = Some t \<and> t \<noteq> 0 \<and> readyAt two_guilds = Some r \<and> t < r - 2000)
   \<and> \<not> cooling cfg_default two_guilds (mid erin) 1700000060000
   \<and> wf_timers two_guilds
   \<and> snd (guildMemberAdd Batched cfg_default (Some erin) ChanNull 1700000060000 two_guilds)
       = [Forward ''guildA'' erin]
   \<and> JStr (mid erin)
       \<in> known_ids (fst (guildMemberAdd Batched cfg_default (Some erin) ChanNull 1700000060000
            two_guilds)) ''guildA''
   \<and> saveScheduled (fst (guildMemberAdd Batched cfg_default (Some erin) ChanNull 1700000060000
        two_guilds))
   \<and> notifyBuffer (fst (guildMemberAdd Batched cfg_default (Some erin) ChanNull 1700000060000
        two_guilds)) = [(''guildA'', erin)]
   \<and> (\<exists>h ms. debounceTimer (fst (guildMemberAdd Batched cfg_default (Some erin) ChanNull
                 1700000060000 two_guilds)) = Some h
         \<and> erin \<in> set ms
         \<and> Sent (Summary ''guildA'' ms)
             \<in> set (snd (fire Batched h (\<lambda>g. Chan (\<lambda>msg. True))
                  (fst (guildMemberAdd Batched cfg_default (Some erin) ChanNull 1700000060000
                     two_guilds)))))
   \<and> mguild alice_in_B = Some ''guildB''
   \<and> JStr (mid alice_in_B) \<notin> known_ids notified_world ''guildB''
   \<and> \<not> (\<exists>t r. joinedTimestamp alice_in_B = Some t \<and> t \<noteq> 0 \<and> readyAt notified_world = Some r
            \<and> t < r - 2000)
   \<and> cooling cfg_default notified_world (mid alice_in_B) 1700000200500
   \<and> notifyBuffer (fst (guildMemberAdd Batched cfg_default (Some alice_in_B) ChanNull
        1700000200500 notified_world)) = []
   \<and> snd (guildMemberAdd Instant cfg_default (Some erin) (Chan (\<lambda>msg. True)) 1700000060000
            two_guilds) = [Sent (Detail erin)]
   \<and> snd (guildMemberAdd Instant cfg_default (Some erin) ChanNull 1700000060000 two_guilds) = []"
proof -
  let ?chans = "\<lambda>g :: string. Chan (\<lambda>msg. True)"
  have a: "mguild alice = Some ''guildA''" "JStr (mid alice) \<in> known_ids two_guilds ''guildA''"
    "map_of (knownMembers two_guilds) ''guildA'' \<noteq> None"
    by (simp_all add: alice_def two_guilds_simps) (simp add: two_guilds_def)
  have d: "mguild dave = Some ''guildA''" "joinedTimestamp dave = Some 1600000000000"
    "readyAt fresh_world = Some 1700000000000"
    "map_of (knownMembers fresh_world) ''guildA'' = None"
    "knownMembers fresh_world = []"
    by (simp_all add: dave_def fresh_world_def initial_def)
  have e: "mguild erin = Some ''guildA''" "JStr (mid erin) \<notin> known_ids two_guilds ''guildA''"
    "\<not> (\<exists>t r. joinedTimestamp erin = Some t \<and> t \<noteq> 0 \<and> readyAt two_guilds = Some r \<and> t < r - 2000)"
    by (simp_all add: erin_def two_guilds_simps)
  have ec: "\<not> cooling cfg_default two_guilds (mid erin) 1700000060000"
    by (simp add: cooling_def cfg_default_def two_guilds_def initial_def)
  have wf: "wf_timers two_guilds"
    by (simp add: wf_timers_def two_guilds_def initial_def)
  have eb: "notifyBuffer two_guilds = []" by (simp add: two_guilds_def initial_def)
  have b: "mguild alice_in_B = Some ''guildB''"
    "JStr (mid alice_in_B) \<notin> known_ids notified_world ''guildB''"
    "\<not> (\<exists>t r. joinedTimestamp alice_in_B = Some t \<and> t \<noteq> 0 \<and> readyAt notified_world = Some r
            \<and> t < r - 2000)"
    "cooling cfg_default notified_world (mid alice_in_B) 1700000200500"
    "notifyBuffer notified_world = []"
    by (simp_all add: alice_in_B_def notified_world_def initial_def known_ids_def known_def
        cooling_def cfg_default_def)
  have ha: "mguild alice = Some ''guildA''
      \<and> (JStr (mid alice) \<in> known_ids two_guilds ''guildA''
           \<or> (\<exists>t r. joinedTimestamp alice = Some t \<and> t \<noteq> 0 \<and> readyAt two_guilds = Some r
                  \<and> t < r - 2000))"
    using a(1,2) by blast
  note ta = join_listener [of alice "''guildA''" two_guilds Batched cfg_default ChanNull
      1700000060000, THEN conjunct1, THEN mp, OF ha]
  from ta a(3) have "ensure_entry ''guildA'' two_guilds = two_guilds" by blast
  moreover from ta
  have "guildMemberAdd Batched cfg_default (Some alice) ChanNull 1700000060000 two_guilds
          = (ensure_entry ''guildA'' two_guilds, [])"
    by blast
  ultimately have ra:
    "guildMemberAdd Batched cfg_default (Some alice) ChanNull 1700000060000 two_guilds
       = (two_guilds, [])"
    by simp
  have hd: "mguild dave = Some ''guildA''
      \<and> (JStr (mid dave) \<in> known_ids fresh_world ''guildA''
           \<or> (\<exists>t r. joinedTimestamp dave = Some t \<and> t \<noteq> 0 \<and> readyAt fresh_world = Some r
                  \<and> t < r - 2000))"
    using d(1,2,3) by simp
  note td = join_listener [of dave "''guildA''" fresh_world Instant cfg_default
      "Chan (\<lambda>msg. True)" 1700000060000, THEN conjunct1, THEN mp, OF hd]
  from td d(4) have "knownMembers (ensure_entry ''guildA'' fresh_world)
                       = knownMembers fresh_world @ [(''guildA'', [])]"
    by blast
  moreover from td
  have "guildMemberAdd Instant cfg_default (Some dave) (Chan (\<lambda>msg. True)) 1700000060000
          fresh_world = (ensure_entry ''guildA'' fresh_world, [])"
    by blast
  ultimately have rd:
    "snd (guildMemberAdd Instant cfg_default (Some dave) (Chan (\<lambda>msg. True)) 1700000060000
            fresh_world) = []"
    "knownMembers (fst (guildMemberAdd Instant cfg_default (Some dave) (Chan (\<lambda>msg. True))
            1700000060000 fresh_world)) = [(''guildA'', [])]"
    by (simp_all add: d(5))
  have he: "mguild erin = Some ''guildA''
      \<and> JStr (mid erin) \<notin> known_ids two_guilds ''guildA''
      \<and> \<not> (\<exists>t r. joinedTimestamp erin = Some t \<and> t \<noteq> 0 \<and> readyAt two_guilds = Some r
                \<and> t < r - 2000)"
    using e by blast
  from join_listener [of erin "''guildA''" two_guilds Batched cfg_default ChanNull
      1700000060000, THEN conjunct2, THEN mp, OF he]
  obtain we fe where we0:
    "guildMemberAdd Batched cfg_default (Some erin) ChanNull 1700000060000 two_guilds = (we, fe)"
    "known_ids we ''guildA'' = insert (JStr (mid erin)) (known_ids two_guilds ''guildA'')"
    "saveScheduled we"
    and batched: "Batched = Batched \<longrightarrow>
       fe = [Forward ''guildA'' erin]
       \<and> (\<exists>w2. lastNotified w2 = lastNotified two_guilds
              \<and> notifyBuffer w2 = notifyBuffer two_guilds
              \<and> pending FlushCb w2 = pending FlushCb two_guilds
              \<and> (wf_timers two_guilds \<longrightarrow> wf_timers w2)
              \<and> we = scheduleNotify cfg_default erin ''guildA'' 1700000060000 w2)
       \<and> (cooling cfg_default two_guilds (mid erin) 1700000060000 \<longrightarrow>
             notifyBuffer we = notifyBuffer two_guilds \<and> lastNotified we = lastNotified two_guilds
             \<and> pending FlushCb we = pending FlushCb two_guilds)
       \<and> (\<not> cooling cfg_default two_guilds (mid erin) 1700000060000 \<longrightarrow>
             notifyBuffer we = notifyBuffer two_guilds @ [(''guildA'', erin)]
             \<and> lastNotified we (mid erin) = Some 1700000060000
             \<and> (wf_timers two_guilds \<longrightarrow>
                  (\<forall>chans send. chans ''guildA'' = Chan send \<and> (\<forall>msg. send msg) \<longrightarrow>
                     (\<exists>h ms. debounceTimer we = Some h
                        \<and> Timer h (1700000060000 + notifyDebounceMs cfg_default) FlushCb
                            \<in> set (timers we)
                        \<and> erin \<in> set ms
                        \<and> Sent (Summary ''guildA'' ms) \<in> set (snd (fire Batched h chans we))))))"
    by (elim exE conjE)
  note bt = batched [THEN mp, OF refl]
  note acc = bt [THEN conjunct2, THEN conjunct2, THEN conjunct2, THEN mp, OF ec]
  from bt have fe: "fe = [Forward ''guildA'' erin]" by (rule conjunct1)
  from acc have queued: "notifyBuffer we = notifyBuffer two_guilds @ [(''guildA'', erin)]"
    by (rule conjunct1)
  from acc [THEN conjunct2, THEN conjunct2, THEN mp, OF wf] have flush:
    "\<forall>chans send. chans ''guildA'' = Chan send \<and> (\<forall>msg. send msg) \<longrightarrow>
        (\<exists>h ms. debounceTimer we = Some h
           \<and> Timer h (1700000060000 + notifyDebounceMs cfg_default) FlushCb \<in> set (timers we)
           \<and> erin \<in> set ms
           \<and> Sent (Summary ''guildA'' ms) \<in> set (snd (fire Batched h chans we)))" .
  have open_channel: "?chans ''guildA'' = Chan (\<lambda>msg. True) \<and> (\<forall>msg :: message. True)"
    by simp
  from flush [THEN spec, of ?chans, THEN spec, of "\<lambda>msg. True", THEN mp, OF open_channel]
  have sent: "\<exists>h ms. debounceTimer we = Some h \<and> erin \<in> set ms
           \<and> Sent (Summary ''guildA'' ms) \<in> set (snd (fire Batched h ?chans we))"
    by blast
  note we = we0(1) [unfolded fe] we0(2,3) queued
  have hb: "mguild alice_in_B = Some ''guildB''
      \<and> JStr (mid alice_in_B) \<notin> known_ids notified_world ''guildB''
      \<and> \<not> (\<exists>t r. joinedTimestamp alice_in_B = Some t \<and> t \<noteq> 0 \<and> readyAt notified_world = Some r
                \<and> t < r - 2000)"
    using b(1,2,3) by blast
  from join_listener [of alice_in_B "''guildB''" notified_world Batched cfg_default ChanNull
      1700000200500, THEN conjunct2, THEN mp, OF hb]
  obtain wb fb where wb0:
    "guildMemberAdd Batched cfg_default (Some alice_in_B) ChanNull 1700000200500 notified_world
       = (wb, fb)"
    and dropped: "Batched = Batched \<longrightarrow>
       fb = [Forward ''guildB'' alice_in_B]
       \<and> (\<exists>w2. lastNotified w2 = lastNotified notified_world
              \<and> notifyBuffer w2 = notifyBuffer notified_world
              \<and> pending FlushCb w2 = pending FlushCb notified_world
              \<and> (wf_timers notified_world \<longrightarrow> wf_timers w2)
              \<and> wb = scheduleNotify cfg_default alice_in_B ''guildB'' 1700000200500 w2)
       \<and> (cooling cfg_default notified_world (mid alice_in_B) 1700000200500 \<longrightarrow>
             notifyBuffer wb = notifyBuffer notified_world
             \<and> lastNotified wb = lastNotified notified_world
             \<and> pending FlushCb wb = pending FlushCb notified_world)
       \<and> (\<not> cooling cfg_default notified_world (mid alice_in_B) 1700000200500 \<longrightarrow>
             notifyBuffer wb = notifyBuffer notified_world @ [(''guildB'', alice_in_B)]
             \<and> lastNotified wb (mid alice_in_B) = Some 1700000200500
             \<and> (wf_timers notified_world \<longrightarrow>
                  (\<forall>chans send. chans ''guildB'' = Chan send \<and> (\<forall>msg. send msg) \<longrightarrow>
                     (\<exists>h ms. debounceTimer wb = Some h
                        \<and> Timer h (1700000200500 + notifyDebounceMs cfg_default) FlushCb
                            \<in> set (timers wb)
                        \<and> alice_in_B \<in> set ms
                        \<and> Sent (Summary ''guildB'' ms) \<in> set (snd (fire Batched h chans wb))))))"
    by (elim exE conjE)
  from dropped [THEN mp, OF refl, THEN conjunct2, THEN conjunct2, THEN conjunct1, THEN mp, OF b(4)]
  have "notifyBuffer wb = notifyBuffer notified_world"
    by (rule conjunct1)
  with b(5) have wb: "notifyBuffer (fst (guildMemberAdd Batched cfg_default (Some alice_in_B)
      ChanNull 1700000200500 notified_world)) = []"
    by (simp add: wb0)
  from join_listener [of erin "''guildA''" two_guilds Instant cfg_default "Chan (\<lambda>msg. True)"
      1700000060000, THEN conjunct2, THEN mp, OF he]
  obtain wi fi where wi0:
    "guildMemberAdd Instant cfg_default (Some erin) (Chan (\<lambda>msg. True)) 1700000060000 two_guilds
       = (wi, fi)"
    and instant: "Instant = Instant \<longrightarrow>
       fi = map Sent (dispatch_detailed (Chan (\<lambda>msg. True)) (''guildA'', [erin]))
       \<and> notifyBuffer wi = notifyBuffer two_guilds \<and> lastNotified wi = lastNotified two_guilds
       \<and> (\<forall>send. Chan (\<lambda>msg. True) = Chan send \<and> send (Detail erin) \<longrightarrow> fi = [Sent (Detail erin)])
       \<and> (Chan (\<lambda>msg. True) = ChanNull \<or> Chan (\<lambda>msg. True) = ChanThrows \<longrightarrow> fi = [])"
    by (elim exE conjE)
  from instant [THEN mp, OF refl, THEN conjunct2, THEN conjunct2, THEN conjunct2, THEN conjunct1,
      THEN spec, of "\<lambda>msg. True"]
  have "fi = [Sent (Detail erin)]" by simp
  with wi0 have wi:
    "snd (guildMemberAdd Instant cfg_default (Some erin) (Chan (\<lambda>msg. True)) 1700000060000
            two_guilds) = [Sent (Detail erin)]"
    by simp
  from join_listener [of erin "''guildA''" two_guilds Instant cfg_default ChanNull
      1700000060000, THEN conjunct2, THEN mp, OF he]
  obtain wn fn where wn0:
    "guildMemberAdd Instant cfg_default (Some erin) ChanNull 1700000060000 two_guilds = (wn, fn)"
    and failed: "Instant = Instant \<longrightarrow>
       fn = map Sent (dispatch_detailed ChanNull (''guildA'', [erin]))
       \<and> notifyBuffer wn = notifyBuffer two_guilds \<and> lastNotified wn = lastNotified two_guilds
       \<and> (\<forall>send. ChanNull = Chan send \<and> send (Detail erin) \<longrightarrow> fn = [Sent (Detail erin)])
       \<and> (ChanNull = ChanNull \<or> ChanNull = ChanThrows \<longrightarrow> fn = [])"
    by (elim exE conjE)
  from failed [THEN mp, OF refl, THEN conjunct2, THEN conjunct2, THEN conjunct2, THEN conjunct2]
  have "fn = []" by simp
  with wn0 have wn:
    "snd (guildMemberAdd Instant cfg_default (Some erin) ChanNull 1700000060000 two_guilds) = []"
    by simp
  have r1: "snd (guildMemberAdd Batched cfg_default (Some erin) ChanNull 1700000060000 two_guilds)
              = [Forward ''guildA'' erin]"
    and r2: "fst (guildMemberAdd Batched cfg_default (Some erin) ChanNull 1700000060000 two_guilds)
              = we"
    by (simp_all add: we(1))
  have r3: "JStr (mid erin) \<in> known_ids we ''guildA''" by (simp add: we(2))
  have r4: "notifyBuffer we = [(''guildA'', erin)]" by (simp add: we(4) eb)
  show ?thesis
    unfolding r2
    by (intro conjI a(1) a(2) a(3) ra d(1) d(2) d(3) d(4) rd e ec wf r1 r3 we(3) r4 sent
        b(1) b(2) b(3) b(4) wb wi wn)
qed

subsection \<open>Known members are not offered again\<close>

lemma mark_all_absent:
  "map_of km g = None \<Longrightarrow> ms \<noteq> [] \<Longrightarrow> mark_all g ms km = Inl TypeError"
  by (cases ms) (simp_all add: mark_known_def)

lemma pollFetched_grows:
  assumes "pollFetched c g0 fetched now w = (w', fw)"
  shows "set (known (knownMembers w) g) \<subseteq> set (known (knownMembers w') g)
         \<and> set fw \<subseteq> set (diffNewMembers (knownMembers w) (gid g0) fetched)"
proof (cases "map_of (knownMembers w) (gid g0) = None")
  case True
  have "pollFetched c g0 fetched now w = (w, [])"
  proof (cases "diffNewMembers (knownMembers w) (gid g0) fetched = []")
    case True
    then show ?thesis by (simp add: pollFetched_def)
  next
    case False
    with True show ?thesis by (simp add: pollFetched_def mark_all_absent Let_def)
  qed
  with assms show ?thesis by simp
next
  case False
  from pollFetched_ok [OF False, of c fetched now] assms
  have k: "set (known (knownMembers w') (gid g0))
             = set (known (knownMembers w) (gid g0))
               \<union> (\<lambda>m. JStr (mid m)) ` set (diffNewMembers (knownMembers w) (gid g0) fetched)"
    and o: "\<forall>g'. g' \<noteq> gid g0 \<longrightarrow> known (knownMembers w') g' = known (knownMembers w) g'"
    and f: "fw = filter (recent (startupTs w now)) (diffNewMembers (knownMembers w) (gid g0) fetched)"
    by auto
  from k o have "set (known (knownMembers w) g) \<subseteq> set (known (knownMembers w') g)"
    by (cases "g = gid g0") auto
  with f show ?thesis by auto
qed

lemma guildMemberAdd_grows:
  assumes "guildMemberAdd v c ev ch now w = (w', fx)"
  shows "set (known (knownMembers w) g) \<subseteq> set (known (knownMembers w') g)
         \<and> (\<forall>m. Forward g m \<in> set fx \<longrightarrow> JStr (mid m) \<notin> known_ids w g)"
proof (cases ev)
  case None
  with assms show ?thesis by (simp add: guildMemberAdd_def)
next
  case (Some m)
  show ?thesis
  proof (cases "mguild m")
    case None
    with assms Some show ?thesis by (simp add: guildMemberAdd_def)
  next
    case (Some g0)
    show ?thesis
    proof (cases "JStr (mid m) \<in> known_ids w g0 \<or> stale w m")
      case True
      from join_ignored [OF Some True, of v c ch now] assms \<open>ev = Some m\<close>
      show ?thesis by (auto simp: known_ensure_entry)
    next
      case False
      then have nk: "JStr (mid m) \<notin> known_ids w g0" and ns: "\<not> stale w m" by auto
      from join_taken [OF Some nk ns, of v c ch now] obtain km where km:
        "mark_known g0 (mid m) (knownMembers (ensure_entry g0 w)) = Inr km"
        "guildMemberAdd v c (Some m) ch now w
           = (case v of
                Batched \<Rightarrow>
                  (scheduleNotify c m g0 now
                     (savePersistence now ((ensure_entry g0 w)\<lparr> knownMembers := km \<rparr>)),
                   [Forward g0 m])
              | Instant \<Rightarrow>
                  (savePersistence now ((ensure_entry g0 w)\<lparr> knownMembers := km \<rparr>),
                   map Sent (dispatch_detailed ch (g0, [m]))))"
        by blast
      from mark_known_ok [where km = "knownMembers (ensure_entry g0 w)" and g = g0 and i = "mid m",
          OF ensure_entry_present] km(1)
      have grow: "set (known (knownMembers w) g) \<subseteq> set (known km g)"
        by (cases "g = g0") (auto simp: set_set_add known_ensure_entry)
      have kw': "knownMembers w' = km"
        using assms \<open>ev = Some m\<close> km(2)
        by (cases v) (auto simp: scheduleNotify_known savePersistence_known)
      have "\<forall>m'. Forward g m' \<in> set fx \<longrightarrow> JStr (mid m') \<notin> known_ids w g"
        using assms \<open>ev = Some m\<close> km(2) nk by (cases v) auto
      with grow kw' show ?thesis by simp
    qed
  qed
qed

lemma flush_frame:
  assumes "flushNotifyBuffer w = (w', bs)"
  shows "w' = w\<lparr> notifyBuffer := [] \<rparr>"
  using assms by (cases "notifyBuffer w = []") (auto simp: flushNotifyBuffer_def)

lemma fire_known:
  assumes "fire v h chans w = (w', fx)"
  shows "knownMembers w' = knownMembers w \<and> (\<forall>g m. Forward g m \<notin> set fx)"
proof (cases "find (\<lambda>t. tid t = h) (timers w)")
  case None
  with assms show ?thesis by (simp add: fire_def)
next
  case (Some t)
  show ?thesis
  proof (cases "cb t")
    case FlushCb
    obtain w2 bs where fl: "flushNotifyBuffer (clearTimeout h w) = (w2, bs)"
      by (cases "flushNotifyBuffer (clearTimeout h w)")
    from flush_frame [OF fl] have "knownMembers w2 = knownMembers w"
      by (simp add: clearTimeout_def)
    with assms Some FlushCb fl show ?thesis
      by (auto simp: fire_def)
  next
    case SaveCb
    with assms Some show ?thesis
      by (auto simp: fire_def saveCallback_def clearTimeout_def)
  qed
qed

lemma step_keeps_known:
  assumes "JStr i \<in> known_ids w g" and "step c v e w = (w', fx)"
  shows "JStr i \<in> known_ids w' g \<and> (\<forall>m. mid m = i \<longrightarrow> Forward g m \<notin> set fx)"
proof (cases e)
  case (EvPollCheck g0)
  with assms show ?thesis
    by (auto simp: pollPrecheck_def Let_def known_ids_def known_ensure_entry split: if_splits)
next
  case (EvPollFetched g0 fetched now)
  obtain w1 fw where p: "pollFetched c g0 fetched now w = (w1, fw)"
    by (cases "pollFetched c g0 fetched now w")
  from pollFetched_grows [OF p, of g]
  have grow: "set (known (knownMembers w) g) \<subseteq> set (known (knownMembers w1) g)"
    and sub: "set fw \<subseteq> set (diffNewMembers (knownMembers w) (gid g0) fetched)"
    by auto
  have "\<forall>m. mid m = i \<longrightarrow> Forward g m \<notin> set (map (Forward (gid g0)) fw)"
  proof (intro allI impI notI)
    fix m
    assume m: "mid m = i" and "Forward g m \<in> set (map (Forward (gid g0)) fw)"
    then have "gid g0 = g" and "m \<in> set fw" by auto
    with sub have "\<not> set_has (known (knownMembers w) g) (JStr (mid m))"
      by (auto simp: diffNewMembers_def)
    with assms(1) m show False by (simp add: set_has_def known_ids_def)
  qed
  with grow assms p EvPollFetched show ?thesis by (auto simp: known_ids_def)
next
  case (EvJoin ev ch now)
  with assms(2) have "guildMemberAdd v c ev ch now w = (w', fx)" by simp
  from guildMemberAdd_grows [OF this, of g] assms(1) show ?thesis
    by (auto simp: known_ids_def)
next
  case (EvFire h chans)
  with assms(2) have "fire v h chans w = (w', fx)" by simp
  from fire_known [OF this] assms(1) show ?thesis by (simp add: known_ids_def)
next
  case (EvWriteDone r)
  with assms show ?thesis
    by (auto simp: writeDone_def known_ids_def split: list.splits)
next
  case (EvSave now)
  with assms show ?thesis by (auto simp: known_ids_def savePersistence_known)
qed

lemma pollFetched_buffer:
  assumes "pollFetched c g0 fetched now w = (w', fw)"
  shows "set (notifyBuffer w') \<subseteq> set (notifyBuffer w) \<union> Pair (gid g0) ` set fw"
proof (cases "map_of (knownMembers w) (gid g0) = None
              \<or> diffNewMembers (knownMembers w) (gid g0) fetched = []")
  case True
  have "pollFetched c g0 fetched now w = (w, [])"
  proof (cases "diffNewMembers (knownMembers w) (gid g0) fetched = []")
    case True
    then show ?thesis by (simp add: pollFetched_def)
  next
    case False
    with True show ?thesis by (simp add: pollFetched_def mark_all_absent Let_def)
  qed
  with assms show ?thesis by simp
next
  case False
  then have "map_of (knownMembers w) (gid g0) \<noteq> None"
    and "diffNewMembers (knownMembers w) (gid g0) fetched \<noteq> []" by auto
  from pollFetched_calls [OF this, of c now] assms obtain km where
    "w' = fold (\<lambda>x. scheduleNotify c x (gid g0) now) fw (savePersistence now (w\<lparr> knownMembers := km \<rparr>))"
    by auto
  moreover have "notifyBuffer (savePersistence now (w\<lparr> knownMembers := km \<rparr>)) = notifyBuffer w"
    by (simp add: savePersistence_scheduler)
  ultimately show ?thesis
    using calls_buffer_upper [of c "gid g0" now fw "savePersistence now (w\<lparr> knownMembers := km \<rparr>)"]
    by simp
qed

lemma guildMemberAdd_buffer:
  assumes "guildMemberAdd v c ev ch now w = (w', fx)"
  shows "(\<forall>g m. (g, m) \<in> set (notifyBuffer w') \<longrightarrow>
            (g, m) \<in> set (notifyBuffer w) \<or> JStr (mid m) \<notin> known_ids w g)
         \<and> flushes fx = []
         \<and> (\<forall>g ms. Sent (Summary g ms) \<notin> set fx)"
proof (cases ev)
  case None
  with assms show ?thesis by (simp add: guildMemberAdd_def)
next
  case (Some m)
  show ?thesis
  proof (cases "mguild m")
    case None
    with assms Some show ?thesis by (simp add: guildMemberAdd_def)
  next
    case (Some g0)
    show ?thesis
    proof (cases "JStr (mid m) \<in> known_ids w g0 \<or> stale w m")
      case True
      have "notifyBuffer (ensure_entry g0 w) = notifyBuffer w" by (simp add: ensure_entry_def)
      with join_ignored [OF Some True, of v c ch now] assms \<open>ev = Some m\<close>
      show ?thesis by auto
    next
      case False
      then have nk: "JStr (mid m) \<notin> known_ids w g0" and ns: "\<not> stale w m" by auto
      from join_taken [OF Some nk ns, of v c ch now] obtain km where km:
        "guildMemberAdd v c (Some m) ch now w
           = (case v of
                Batched \<Rightarrow>
                  (scheduleNotify c m g0 now
                     (savePersistence now ((ensure_entry g0 w)\<lparr> knownMembers := km \<rparr>)),
                   [Forward g0 m])
              | Instant \<Rightarrow>
                  (savePersistence now ((ensure_entry g0 w)\<lparr> knownMembers := km \<rparr>),
                   map Sent (dispatch_detailed ch (g0, [m]))))"
        by blast
      let ?w2 = "savePersistence now ((ensure_entry g0 w)\<lparr> knownMembers := km \<rparr>)"
      have b2: "notifyBuffer ?w2 = notifyBuffer w"
        by (simp add: savePersistence_scheduler ensure_entry_def)
      show ?thesis
      proof (cases v)
        case Batched
        with assms \<open>ev = Some m\<close> km have w': "w' = scheduleNotify c m g0 now ?w2"
          and fx: "fx = [Forward g0 m]" by simp_all
        have "set (notifyBuffer w') \<subseteq> set (notifyBuffer w) \<union> {(g0, m)}"
          unfolding w' by (auto simp: scheduleNotify_buffer b2)
        with nk fx show ?thesis by auto
      next
        case Instant
        with assms \<open>ev = Some m\<close> km have w': "w' = ?w2"
          and fx: "fx = map Sent (dispatch_detailed ch (g0, [m]))" by simp_all
        have "flushes fx = []" unfolding fx by (rule flushes_Sent)
        moreover have "\<forall>g ms. Sent (Summary g ms) \<notin> set fx"
          unfolding fx by (cases ch) auto
        ultimately show ?thesis using w' b2 by simp
      qed
    qed
  qed
qed

lemma byGuild_member:
  "(g, ms) \<in> set (byGuild buf) \<Longrightarrow> m \<in> set ms \<Longrightarrow> (g, m) \<in> set buf"
proof -
  assume a: "(g, ms) \<in> set (byGuild buf)" and m: "m \<in> set ms"
  then have "(g, m) \<in> set (pairs_of (byGuild buf))"
    by (force simp: pairs_of_def)
  then have "(g, m) \<in># mset (pairs_of (byGuild buf))" by simp
  then show ?thesis by (simp add: byGuild_mset)
qed

lemma dispatch_Summary:
  "Summary g ms \<in> set (dispatch v ch b) \<Longrightarrow> b = (g, ms)"
  by (cases v; cases ch; cases b) (auto split: if_splits)

lemma fire_effects:
  assumes "fire v h chans w = (w', fx)"
  shows "set (notifyBuffer w') \<subseteq> set (notifyBuffer w)
         \<and> (\<forall>b g ms m. b \<in> set (flushes fx) \<and> (g, ms) \<in> set b \<and> m \<in> set ms
               \<longrightarrow> (g, m) \<in> set (notifyBuffer w))
         \<and> (\<forall>g ms m. Sent (Summary g ms) \<in> set fx \<and> m \<in> set ms
               \<longrightarrow> (g, m) \<in> set (notifyBuffer w))"
proof (cases "find (\<lambda>t. tid t = h) (timers w)")
  case None
  with assms show ?thesis by (simp add: fire_def)
next
  case (Some t)
  let ?w1 = "clearTimeout h w"
  have b1: "notifyBuffer ?w1 = notifyBuffer w" by (simp add: clearTimeout_def)
  show ?thesis
  proof (cases "cb t")
    case SaveCb
    with assms Some b1 show ?thesis
      by (auto simp: fire_def saveCallback_def Let_def)
  next
    case FlushCb
    obtain w2 bs where fl: "flushNotifyBuffer ?w1 = (w2, bs)"
      by (cases "flushNotifyBuffer ?w1")
    then have bs: "bs = [] \<or> bs = byGuild (notifyBuffer w)"
      by (auto simp: flushNotifyBuffer_def b1 split: if_splits)
    from flush_frame [OF fl] have w2: "notifyBuffer w2 = []" by simp
    from assms Some FlushCb fl have w': "w' = w2"
      and fx: "fx = Flushed bs # map Sent (concat (map (\<lambda>b. dispatch v (chans (fst b)) b) bs))"
      by (simp_all add: fire_def)
    have in_bs: "\<And>g ms m. (g, ms) \<in> set bs \<Longrightarrow> m \<in> set ms \<Longrightarrow> (g, m) \<in> set (notifyBuffer w)"
      using bs byGuild_member by fastforce
    have fl_fx: "flushes fx = [bs]" unfolding fx by (simp add: flushes_Sent)
    have sent: "\<And>g ms. Sent (Summary g ms) \<in> set fx \<Longrightarrow> (g, ms) \<in> set bs"
      unfolding fx by (auto dest: dispatch_Summary)
    have "set (notifyBuffer w') \<subseteq> set (notifyBuffer w)" using w' w2 by simp
    moreover have "\<forall>b g ms m. b \<in> set (flushes fx) \<and> (g, ms) \<in> set b \<and> m \<in> set ms
               \<longrightarrow> (g, m) \<in> set (notifyBuffer w)"
      unfolding fl_fx using in_bs by auto
    moreover have "\<forall>g ms m. Sent (Summary g ms) \<in> set fx \<and> m \<in> set ms
               \<longrightarrow> (g, m) \<in> set (notifyBuffer w)"
      using in_bs sent by blast
    ultimately show ?thesis by blast
  qed
qed

lemma flushes_append: "flushes (xs @ ys) = flushes xs @ flushes ys"
  by (induction xs rule: flushes.induct) simp_all

lemma step_offers:
  assumes "JStr i \<in> known_ids w g" and "step c v e w = (w', fx)"
  shows "(\<forall>m. mid m = i \<and> (g, m) \<in> set (notifyBuffer w') \<longrightarrow> (g, m) \<in> set (notifyBuffer w))
         \<and> (\<forall>b ms m. b \<in> set (flushes fx) \<and> (g, ms) \<in> set b \<and> m \<in> set ms
               \<longrightarrow> (g, m) \<in> set (notifyBuffer w))
         \<and> (\<forall>ms m. Sent (Summary g ms) \<in> set fx \<and> m \<in> set ms
               \<longrightarrow> (g, m) \<in> set (notifyBuffer w))"
proof (cases e)
  case (EvPollCheck g0)
  with assms(2) have "w' = ensure_entry (gid g0) w" and "fx = [FetchRoster (gid g0)] \<or> fx = []"
    by (auto simp: pollPrecheck_def Let_def split: if_splits)
  then show ?thesis by (auto simp: ensure_entry_def)
next
  case (EvPollFetched g0 fetched now)
  obtain w1 fw where p: "pollFetched c g0 fetched now w = (w1, fw)"
    by (cases "pollFetched c g0 fetched now w")
  with assms(2) EvPollFetched have w': "w' = w1" and fx: "fx = map (Forward (gid g0)) fw"
    by simp_all
  from pollFetched_grows [OF p, of g]
  have sub: "set fw \<subseteq> set (diffNewMembers (knownMembers w) (gid g0) fetched)" by simp
  have "\<forall>m. mid m = i \<and> (g, m) \<in> set (notifyBuffer w1) \<longrightarrow> (g, m) \<in> set (notifyBuffer w)"
  proof (intro allI impI)
    fix m
    assume a: "mid m = i \<and> (g, m) \<in> set (notifyBuffer w1)"
    show "(g, m) \<in> set (notifyBuffer w)"
    proof (rule ccontr)
      assume "(g, m) \<notin> set (notifyBuffer w)"
      with a pollFetched_buffer [OF p] have "gid g0 = g" and "m \<in> set fw" by auto
      with sub have "\<not> set_has (known (knownMembers w) g) (JStr (mid m))"
        by (auto simp: diffNewMembers_def)
      with assms(1) a show False by (simp add: set_has_def known_ids_def)
    qed
  qed
  moreover have "flushes fx = []" unfolding fx by (induction fw) simp_all
  moreover have "\<forall>ms. Sent (Summary g ms) \<notin> set fx" unfolding fx by auto
  ultimately show ?thesis using w' by simp
next
  case (EvJoin ev ch now)
  with assms(2) have "guildMemberAdd v c ev ch now w = (w', fx)" by simp
  from guildMemberAdd_buffer [OF this] assms(1) show ?thesis by auto
next
  case (EvFire h chans)
  with assms(2) have "fire v h chans w = (w', fx)" by simp
  from fire_effects [OF this] show ?thesis by blast
next
  case (EvWriteDone r)
  with assms(2) have "notifyBuffer w' = notifyBuffer w" and "fx = []"
    by (auto simp: writeDone_def split: list.splits)
  then show ?thesis by simp
next
  case (EvSave now)
  with assms(2) have "notifyBuffer w' = notifyBuffer w" and "fx = []"
    by (auto simp: savePersistence_scheduler)
  then show ?thesis by simp
qed

lemma run_keeps_known:
  assumes "JStr i \<in> known_ids w g"
  shows "JStr i \<in> known_ids (fst (run c v evs w)) g
         \<and> (\<forall>m. mid m = i \<longrightarrow> Forward g m \<notin> set (snd (run c v evs w)))"
  using assms
proof (induction evs arbitrary: w)
  case Nil
  then show ?case by simp
next
  case (Cons e evs)
  obtain w1 fx1 where s: "step c v e w = (w1, fx1)" by (cases "step c v e w")
  obtain w2 fx2 where r: "run c v evs w1 = (w2, fx2)" by (cases "run c v evs w1")
  from step_keeps_known [OF Cons.prems s]
  have k1: "JStr i \<in> known_ids w1 g" and f1: "\<forall>m. mid m = i \<longrightarrow> Forward g m \<notin> set fx1"
    by auto
  from Cons.IH [OF k1] r
  have "JStr i \<in> known_ids w2 g" and "\<forall>m. mid m = i \<longrightarrow> Forward g m \<notin> set fx2"
    by auto
  with f1 show ?case by (simp add: s r)
qed

lemma run_offers:
  assumes "JStr i \<in> known_ids w g"
  shows "(\<forall>m. mid m = i \<and> (g, m) \<in> set (notifyBuffer (fst (run c v evs w)))
            \<longrightarrow> (g, m) \<in> set (notifyBuffer w))
         \<and> (\<forall>b ms m. b \<in> set (flushes (snd (run c v evs w))) \<and> (g, ms) \<in> set b \<and> m \<in> set ms
               \<and> mid m = i \<longrightarrow> (g, m) \<in> set (notifyBuffer w))
         \<and> (\<forall>ms m. Sent (Summary g ms) \<in> set (snd (run c v evs w)) \<and> m \<in> set ms \<and> mid m = i
               \<longrightarrow> (g, m) \<in> set (notifyBuffer w))"
  using assms
proof (induction evs arbitrary: w)
  case Nil
  then show ?case by simp
next
  case (Cons e evs)
  obtain w1 fx1 where s: "step c v e w = (w1, fx1)" by (cases "step c v e w")
  obtain w2 fx2 where r: "run c v evs w1 = (w2, fx2)" by (cases "run c v evs w1")
  from step_keeps_known [OF Cons.prems s] have k1: "JStr i \<in> known_ids w1 g" by simp
  note so = step_offers [OF Cons.prems s]
  note s1 = so [THEN conjunct1]
    and s2 = so [THEN conjunct2, THEN conjunct1]
    and s3 = so [THEN conjunct2, THEN conjunct2]
  have ih: "(\<forall>m. mid m = i \<and> (g, m) \<in> set (notifyBuffer w2) \<longrightarrow> (g, m) \<in> set (notifyBuffer w1))
         \<and> (\<forall>b ms m. b \<in> set (flushes fx2) \<and> (g, ms) \<in> set b \<and> m \<in> set ms \<and> mid m = i
               \<longrightarrow> (g, m) \<in> set (notifyBuffer w1))
         \<and> (\<forall>ms m. Sent (Summary g ms) \<in> set fx2 \<and> m \<in> set ms \<and> mid m = i
               \<longrightarrow> (g, m) \<in> set (notifyBuffer w1))"
    using Cons.IH [OF k1] unfolding r fst_conv snd_conv .
  note r1 = ih [THEN conjunct1]
    and r2 = ih [THEN conjunct2, THEN conjunct1]
    and r3 = ih [THEN conjunct2, THEN conjunct2]
  have run: "fst (run c v (e # evs) w) = w2" "snd (run c v (e # evs) w) = fx1 @ fx2"
    by (simp_all add: s r)
  have a: "\<forall>m. mid m = i \<and> (g, m) \<in> set (notifyBuffer w2) \<longrightarrow> (g, m) \<in> set (notifyBuffer w)"
    using s1 r1 by blast
  have b: "\<forall>b ms m. b \<in> set (flushes (fx1 @ fx2)) \<and> (g, ms) \<in> set b \<and> m \<in> set ms \<and> mid m = i
               \<longrightarrow> (g, m) \<in> set (notifyBuffer w)"
    unfolding flushes_append using s1 s2 r2 by (simp only: set_append Un_iff) blast
  have d: "\<forall>ms m. Sent (Summary g ms) \<in> set (fx1 @ fx2) \<and> m \<in> set ms \<and> mid m = i
               \<longrightarrow> (g, m) \<in> set (notifyBuffer w)"
    using s1 s3 r3 by (simp only: set_append Un_iff) blast
  from a b d show ?case unfolding run by blast
qed

text \<open>
  Claim C1. Let a member's identifier be in the known set of a guild. Then after any
  sequence of events (poll iterations with any roster, join events, timers, flushes
  whose channel fetch or send fails, writes that fail) it is still there, and no event of
  the sequence hands a member with that identifier to the scheduler for that guild: no
  such call is made, the notification buffer holds no such member for the guild that it
  did not hold at the start, and no flush and no summary message of the sequence carries
  one that the buffer did not hold at the start.
\<close>

theorem known_member_not_offered_again:
  assumes "JStr i \<in> known_ids w g"
  shows "JStr i \<in> known_ids (fst (run c v evs w)) g
         \<and> (\<forall>m. mid m = i \<longrightarrow> Forward g m \<notin> set (snd (run c v evs w)))
         \<and> (\<forall>m. mid m = i \<and> (g, m) \<in> set (notifyBuffer (fst (run c v evs w)))
               \<longrightarrow> (g, m) \<in> set (notifyBuffer w))
         \<and> (\<forall>b ms m. b \<in> set (flushes (snd (run c v evs w))) \<and> (g, ms) \<in> set b \<and> m \<in> set ms
               \<and> mid m = i \<longrightarrow> (g, m) \<in> set (notifyBuffer w))
         \<and> (\<forall>ms m. Sent (Summary g ms) \<in> set (snd (run c v evs w)) \<and> m \<in> set ms \<and> mid m = i
               \<longrightarrow> (g, m) \<in> set (notifyBuffer w))"
  using run_keeps_known [OF assms, of c v evs] run_offers [OF assms, of c v evs]
  by blast

lemma after_failed_dispatch:
  "JStr ''1005'' \<in> known_ids (fst (run cfg_default Batched (take 3 tick_then_failed_dispatch) two_guilds)) ''guildA''"
  "notifyBuffer (fst (run cfg_default Batched (take 3 tick_then_failed_dispatch) two_guilds)) = []"
  "Forward ''guildA'' erin \<in> set (snd (run cfg_default Batched (take 3 tick_then_failed_dispatch) two_guilds))"
  by (simp_all add: tick_then_failed_dispatch_def guildA_def two_guilds_def initial_def
        pollPrecheck_def ensure_entry_def known_def known_ids_def set_size_def
        pollFetched_def diffNewMembers_def set_has_def recent_def alice_def dave_def erin_def
        mark_known_def set_add_def savePersistence_def setTimeout_def forward_all_def
        scheduleNotify_def cooling_def cfg_default_def clearTimeout_def Let_def
        fire_def flushNotifyBuffer_def byGuild_def)

theorem known_member_not_offered_again_witness:
  "JStr ''1005'' \<in> known_ids (fst (run cfg_default Batched (take 3 tick_then_failed_dispatch) two_guilds)) ''guildA''
   \<and> notifyBuffer (fst (run cfg_default Batched (take 3 tick_then_failed_dispatch) two_guilds)) = []
   \<and> JStr ''1005''
       \<in> known_ids (fst (run cfg_default Batched (drop 3 tick_then_failed_dispatch)
            (fst (run cfg_default Batched (take 3 tick_then_failed_dispatch) two_guilds)))) ''guildA''
   \<and> Forward ''guildA'' erin
       \<notin> set (snd (run cfg_default Batched (drop 3 tick_then_failed_dispatch)
            (fst (run cfg_default Batched (take 3 tick_then_failed_dispatch) two_guilds))))
   \<and> (''guildA'', erin)
       \<notin> set (notifyBuffer (fst (run cfg_default Batched (drop 3 tick_then_failed_dispatch)
            (fst (run cfg_default Batched (take 3 tick_then_failed_dispatch) two_guilds)))))"
proof -
  let ?w3 = "fst (run cfg_default Batched (take 3 tick_then_failed_dispatch) two_guilds)"
  have e: "mid erin = ''1005''" by (simp add: erin_def)
  note t = known_member_not_offered_again [OF after_failed_dispatch(1),
      of cfg_default Batched "drop 3 tick_then_failed_dispatch"]
  from t have "JStr ''1005''
       \<in> known_ids (fst (run cfg_default Batched (drop 3 tick_then_failed_dispatch) ?w3)) ''guildA''"
    by blast
  moreover from t e have "Forward ''guildA'' erin
       \<notin> set (snd (run cfg_default Batched (drop 3 tick_then_failed_dispatch) ?w3))"
    by blast
  moreover from t e have "(''guildA'', erin)
       \<in> set (notifyBuffer (fst (run cfg_default Batched (drop 3 tick_then_failed_dispatch) ?w3)))
       \<longrightarrow> (''guildA'', erin) \<in> set (notifyBuffer ?w3)"
    by blast
  ultimately show ?thesis
    using after_failed_dispatch(1,2) by simp
qed

subsection \<open>Membership store: saves coalesce\<close>

lemma save_inv_machinery: "machinery w' = machinery w \<Longrightarrow> save_inv w' = save_inv w"
  by (simp add: machinery_def save_inv_def wf_timers_def pending_def)

lemma machinery_known [simp]: "machinery (w\<lparr> knownMembers := km \<rparr>) = machinery w"
  by (simp add: machinery_def)

lemma machinery_ensure_entry: "machinery (ensure_entry g w) = machinery w"
  by (simp add: ensure_entry_def)

lemma save_inv_savePersistence:
  assumes "save_inv w"
  shows "save_inv (savePersistence now w)"
proof (cases "saveScheduled w")
  case True
  with assms show ?thesis by (simp add: savePersistence_def)
next
  case False
  let ?n = "nextTimer w"
  have t: "timers (savePersistence now w) = timers w @ [Timer ?n (now + 800) SaveCb]"
    and n: "nextTimer (savePersistence now w) = Suc ?n"
    and o: "writes (savePersistence now w) = writes w"
           "debounceTimer (savePersistence now w) = debounceTimer w"
           "saveScheduled (savePersistence now w)"
    using False by (simp_all add: savePersistence_def setTimeout_def)
  from assms have old: "\<forall>x \<in> set (timers w). tid x < ?n" and d: "distinct (map tid (timers w))"
    by (simp_all add: save_inv_def wf_timers_def)
  from old have "?n \<notin> tid ` set (timers w)" by auto
  with d old have wf: "wf_timers (savePersistence now w)"
    by (auto simp: wf_timers_def t n less_Suc_eq)
  have h: "\<forall>h. debounceTimer w = Some h \<longrightarrow>
             h < Suc ?n \<and> (\<forall>x \<in> set (timers w @ [Timer ?n (now + 800) SaveCb]). tid x = h \<longrightarrow> cb x = FlushCb)"
    using assms by (auto simp: save_inv_def)
  from assms False have "length (pending SaveCb w) + length (writes w) = 0"
    by (simp add: save_inv_def)
  then have c: "length (pending SaveCb (savePersistence now w)) + length (writes (savePersistence now w)) = 1"
    by (simp add: pending_def t o)
  from wf h c show ?thesis by (simp add: save_inv_def t n o)
qed

lemma save_inv_scheduleNotify:
  assumes "save_inv w"
  shows "save_inv (scheduleNotify c m g now w)"
proof (cases "cooling c w (mid m) now")
  case True
  with assms show ?thesis by (simp add: scheduleNotify_dropped)
next
  case False
  let ?w' = "scheduleNotify c m g now w"
  let ?old = "case debounceTimer w of None \<Rightarrow> timers w
              | Some h \<Rightarrow> filter (\<lambda>x. tid x \<noteq> h) (timers w)"
  note acc = scheduleNotify_accepted [OF False, of g]
  from assms have wf: "wf_timers w" by (simp add: save_inv_def)
  then have wf': "wf_timers ?w'" using False by (rule accept_wf_timers)
  have sub: "set ?old \<subseteq> set (timers w)" by (cases "debounceTimer w") auto
  from wf have "\<forall>x \<in> set (timers w). tid x < nextTimer w" by (simp add: wf_timers_def)
  with sub have "\<forall>x \<in> set ?old. tid x < nextTimer w" by blast
  then have "\<forall>x \<in> set ?old. tid x \<noteq> nextTimer w" by fastforce
  then have h: "\<forall>x \<in> set (timers ?w'). tid x = nextTimer w \<longrightarrow> cb x = FlushCb"
    by (auto simp: acc(10))
  have "filter (\<lambda>x. cb x = SaveCb) ?old = filter (\<lambda>x. cb x = SaveCb) (timers w)"
  proof (cases "debounceTimer w")
    case None
    then show ?thesis by simp
  next
    case (Some h0)
    with assms have "\<forall>x \<in> set (timers w). tid x = h0 \<longrightarrow> cb x = FlushCb"
      by (simp add: save_inv_def)
    then have "filter (\<lambda>x. cb x = SaveCb) (filter (\<lambda>x. tid x \<noteq> h0) (timers w))
               = filter (\<lambda>x. cb x = SaveCb) (timers w)"
      by (auto intro!: filter_cong)
    with Some show ?thesis by simp
  qed
  then have "pending SaveCb ?w' = pending SaveCb w"
    by (simp add: pending_def acc(10))
  with assms have c: "length (pending SaveCb ?w') + length (writes ?w')
                      = (if saveScheduled ?w' then 1 else 0)"
    by (simp add: save_inv_def acc(4,5))
  from wf' h c show ?thesis by (simp add: save_inv_def acc(8,9))
qed

lemma save_inv_forward_all:
  "save_inv w \<Longrightarrow> save_inv (forward_all c g ms now w)"
  unfolding forward_all_def
  by (induction ms arbitrary: w) (simp_all add: save_inv_scheduleNotify)

lemma save_inv_known: "save_inv (w\<lparr> knownMembers := km \<rparr>) = save_inv w"
  by (rule save_inv_machinery) simp

lemma save_inv_ensure_entry: "save_inv (ensure_entry g w) = save_inv w"
  by (rule save_inv_machinery) (rule machinery_ensure_entry)

lemma save_inv_pollFetched:
  assumes "save_inv w" and "pollFetched c g fetched now w = (w', fw)"
  shows "save_inv w'"
proof (cases "diffNewMembers (knownMembers w) (gid g) fetched = []")
  case True
  with assms show ?thesis by (simp add: pollFetched_def)
next
  case False
  show ?thesis
  proof (cases "mark_all (gid g) (diffNewMembers (knownMembers w) (gid g) fetched) (knownMembers w)")
    case (Inl e)
    with assms False show ?thesis by (simp add: pollFetched_def Let_def)
  next
    case (Inr km)
    have "save_inv (savePersistence now (w\<lparr> knownMembers := km \<rparr>))"
      using assms(1) by (simp add: save_inv_savePersistence save_inv_known)
    then have "\<And>ms. save_inv (forward_all c (gid g) ms now (savePersistence now (w\<lparr> knownMembers := km \<rparr>)))"
      by (rule save_inv_forward_all)
    with assms(2) False Inr show ?thesis by (auto simp: pollFetched_def Let_def)
  qed
qed

lemma save_inv_guildMemberAdd:
  assumes "save_inv w" and "guildMemberAdd v c ev ch now w = (w', fx)"
  shows "save_inv w'"
proof (cases ev)
  case None
  with assms show ?thesis by (simp add: guildMemberAdd_def)
next
  case (Some m)
  show ?thesis
  proof (cases "mguild m")
    case None
    with assms Some show ?thesis by (simp add: guildMemberAdd_def)
  next
    case (Some g0)
    show ?thesis
    proof (cases "JStr (mid m) \<in> known_ids w g0 \<or> stale w m")
      case True
      from join_ignored [OF Some True, of v c ch now] assms \<open>ev = Some m\<close>
      show ?thesis by (auto simp: save_inv_ensure_entry)
    next
      case False
      then have nk: "JStr (mid m) \<notin> known_ids w g0" and ns: "\<not> stale w m" by auto
      from join_taken [OF Some nk ns, of v c ch now] obtain km where km:
        "guildMemberAdd v c (Some m) ch now w
           = (case v of
                Batched \<Rightarrow>
                  (scheduleNotify c m g0 now
                     (savePersistence now ((ensure_entry g0 w)\<lparr> knownMembers := km \<rparr>)),
                   [Forward g0 m])
              | Instant \<Rightarrow>
                  (savePersistence now ((ensure_entry g0 w)\<lparr> knownMembers := km \<rparr>),
                   map Sent (dispatch_detailed ch (g0, [m]))))"
        by blast
      have s: "save_inv (savePersistence now ((ensure_entry g0 w)\<lparr> knownMembers := km \<rparr>))"
        using assms(1) by (simp add: save_inv_savePersistence save_inv_known save_inv_ensure_entry)
      then have "save_inv (scheduleNotify c m g0 now
                   (savePersistence now ((ensure_entry g0 w)\<lparr> knownMembers := km \<rparr>)))"
        by (rule save_inv_scheduleNotify)
      with s assms(2) \<open>ev = Some m\<close> km show ?thesis by (cases v) auto
    qed
  qed
qed

lemma count_without:
  "distinct (map tid ts) \<Longrightarrow> x \<in> set ts \<Longrightarrow>
   length (filter (\<lambda>t. cb t = k) (filter (\<lambda>t. tid t \<noteq> tid x) ts)) + (if cb x = k then 1 else 0)
   = length (filter (\<lambda>t. cb t = k) ts)"
proof (induction ts)
  case Nil
  then show ?case by simp
next
  case (Cons y ts)
  show ?case
  proof (cases "y = x")
    case True
    with Cons.prems have "\<forall>t \<in> set ts. tid t \<noteq> tid x" by (auto simp: image_iff)
    then have "filter (\<lambda>t. tid t \<noteq> tid x) ts = ts" by simp
    with True show ?thesis by simp
  next
    case False
    with Cons.prems have "x \<in> set ts" and "distinct (map tid ts)" and "tid y \<noteq> tid x"
      by (auto simp: image_iff)
    with Cons.IH show ?thesis by simp
  qed
qed

lemma save_inv_fire:
  assumes "save_inv w" and "fire v h chans w = (w', fx)"
  shows "save_inv w'"
proof (cases "find (\<lambda>t. tid t = h) (timers w)")
  case None
  with assms show ?thesis by (simp add: fire_def)
next
  case (Some t)
  then have t: "t \<in> set (timers w)" "tid t = h"
    by (auto simp: find_Some_iff)
  let ?w1 = "clearTimeout h w"
  from assms(1) have d: "distinct (map tid (timers w))"
    and fr: "\<forall>x \<in> set (timers w). tid x < nextTimer w"
    by (simp_all add: save_inv_def wf_timers_def)
  have wf1: "wf_timers ?w1"
    using d fr by (auto simp: wf_timers_def clearTimeout_def distinct_map_filter)
  from assms(1) have hd: "\<forall>h'. debounceTimer w = Some h' \<longrightarrow>
              h' < nextTimer w \<and> (\<forall>x \<in> set (timers w). tid x = h' \<longrightarrow> cb x = FlushCb)"
    by (simp add: save_inv_def)
  have fields1: "debounceTimer ?w1 = debounceTimer w" "nextTimer ?w1 = nextTimer w"
    "set (timers ?w1) \<subseteq> set (timers w)" "writes ?w1 = writes w"
    "saveScheduled ?w1 = saveScheduled w"
    by (auto simp: clearTimeout_def)
  have h1: "\<forall>h'. debounceTimer ?w1 = Some h' \<longrightarrow>
              h' < nextTimer ?w1 \<and> (\<forall>x \<in> set (timers ?w1). tid x = h' \<longrightarrow> cb x = FlushCb)"
    unfolding fields1(1,2) using hd fields1(3) by blast
  from count_without [OF d t(1), of SaveCb] t(2)
  have cnt: "length (pending SaveCb ?w1) + (if cb t = SaveCb then 1 else 0)
             = length (pending SaveCb w)"
    by (simp add: pending_def clearTimeout_def)
  show ?thesis
  proof (cases "cb t")
    case FlushCb
    obtain w2 bs where fl: "flushNotifyBuffer ?w1 = (w2, bs)"
      by (cases "flushNotifyBuffer ?w1")
    from flush_frame [OF fl] have m: "machinery w2 = machinery ?w1"
      by (simp add: machinery_def)
    from assms(1) have "length (pending SaveCb w) + length (writes w)
                        = (if saveScheduled w then 1 else 0)"
      by (simp add: save_inv_def)
    with cnt FlushCb have "length (pending SaveCb ?w1) + length (writes ?w1)
                           = (if saveScheduled ?w1 then 1 else 0)"
      by (simp add: fields1)
    with wf1 h1 have "save_inv ?w1" by (simp add: save_inv_def)
    with save_inv_machinery [OF m] have "save_inv w2" by simp
    with assms(2) Some FlushCb fl show ?thesis by (auto simp: fire_def)
  next
    case SaveCb
    let ?w2 = "saveCallback ?w1"
    have same: "timers ?w2 = timers ?w1" "nextTimer ?w2 = nextTimer ?w1"
      "debounceTimer ?w2 = debounceTimer ?w1" "saveScheduled ?w2 = saveScheduled w"
      "writes ?w2 = writes w @ [dump (knownMembers ?w1)]"
      by (simp_all add: saveCallback_def clearTimeout_def)
    from assms(1) have "length (pending SaveCb w) + length (writes w)
                        = (if saveScheduled w then 1 else 0)"
      by (simp add: save_inv_def)
    with cnt SaveCb have "length (pending SaveCb ?w1) + 1 + length (writes w)
                          = (if saveScheduled w then 1 else 0)"
      by simp
    then have c2: "length (pending SaveCb ?w2) + length (writes ?w2)
                   = (if saveScheduled ?w2 then 1 else 0)"
      by (simp add: pending_def same)
    from wf1 have wf2: "wf_timers ?w2" by (simp add: wf_timers_def same)
    from h1 have h2: "\<forall>h'. debounceTimer ?w2 = Some h' \<longrightarrow>
              h' < nextTimer ?w2 \<and> (\<forall>x \<in> set (timers ?w2). tid x = h' \<longrightarrow> cb x = FlushCb)"
      by (simp add: same)
    from wf2 h2 c2 have "save_inv ?w2" by (simp add: save_inv_def)
    with assms(2) Some SaveCb show ?thesis by (auto simp: fire_def Let_def)
  qed
qed

lemma save_inv_writeDone:
  assumes "save_inv w"
  shows "save_inv (writeDone r w)"
proof (cases "writes w")
  case Nil
  with assms show ?thesis by (simp add: writeDone_def)
next
  case (Cons d ds)
  with assms have "pending SaveCb w = []" and "ds = []"
    by (auto simp: save_inv_def split: if_splits)
  with assms Cons show ?thesis
    by (simp add: writeDone_def save_inv_def wf_timers_def pending_def)
qed

lemma save_inv_step:
  assumes "save_inv w" and "step c v e w = (w', fx)"
  shows "save_inv w'"
proof (cases e)
  case (EvPollCheck g)
  with assms(2) have "w' = ensure_entry (gid g) w"
    by (auto simp: pollPrecheck_def Let_def split: if_splits)
  with assms(1) show ?thesis by (simp add: save_inv_ensure_entry)
next
  case (EvPollFetched g fetched now)
  obtain w1 fw where p: "pollFetched c g fetched now w = (w1, fw)"
    by (cases "pollFetched c g fetched now w")
  with assms(2) EvPollFetched have "w' = w1" by simp
  with save_inv_pollFetched [OF assms(1) p] show ?thesis by simp
next
  case (EvJoin ev ch now)
  with assms(2) have "guildMemberAdd v c ev ch now w = (w', fx)" by simp
  with assms(1) show ?thesis by (rule save_inv_guildMemberAdd)
next
  case (EvFire h chans)
  with assms(2) have "fire v h chans w = (w', fx)" by simp
  with assms(1) show ?thesis by (rule save_inv_fire)
next
  case (EvWriteDone r)
  with assms(2) have "w' = writeDone r w" by simp
  with assms(1) show ?thesis by (simp add: save_inv_writeDone)
next
  case (EvSave now)
  with assms(2) have "w' = savePersistence now w" by simp
  with assms(1) show ?thesis by (simp add: save_inv_savePersistence)
qed

lemma save_inv_run: "save_inv w \<Longrightarrow> save_inv (fst (run c v evs w))"
proof (induction evs arbitrary: w)
  case Nil
  then show ?case by simp
next
  case (Cons e evs)
  obtain w1 fx1 where s: "step c v e w = (w1, fx1)" by (cases "step c v e w")
  obtain w2 fx2 where r: "run c v evs w1 = (w2, fx2)" by (cases "run c v evs w1")
  from save_inv_step [OF Cons.prems s] have "save_inv w1" .
  from Cons.IH [OF this] show ?case by (simp add: s r)
qed

lemma save_inv_initial: "save_inv (initial d r)"
  by (simp add: save_inv_def wf_timers_def pending_def initial_def)

lemma machinery_loadPersistence:
  assumes "loadPersistence w = Inr (w', existed)"
  shows "machinery w' = machinery w"
proof -
  obtain km r where "load_try (persistenceFile w) (knownMembers w) = (km, r)"
    by (cases "load_try (persistenceFile w) (knownMembers w)")
  with assms show ?thesis by (cases r) (auto simp: loadPersistence_def)
qed

lemma machinery_baseline: "machinery (baseline g w) = machinery w"
  by (cases "mark_all (gid g) (cache g) (knownMembers (ensure_entry (gid g) w))")
     (simp_all add: baseline_def Let_def machinery_ensure_entry)

lemma machinery_fold_baseline: "machinery (fold baseline gs w) = machinery w"
  by (induction gs arbitrary: w) (simp_all add: machinery_baseline)

lemma save_inv_onReady:
  assumes "save_inv w" and "onReady guilds now w = Inr w0"
  shows "save_inv w0"
proof -
  obtain w1 existed where l: "loadPersistence w = Inr (w1, existed)"
    using load_returns by blast
  let ?w2 = "fold baseline guilds w1"
  have "machinery ?w2 = machinery w"
    by (simp add: machinery_fold_baseline machinery_loadPersistence [OF l])
  from save_inv_machinery [OF this] assms(1) have "save_inv ?w2" by simp
  then have "save_inv (savePersistence now ?w2)" by (rule save_inv_savePersistence)
  moreover from assms(2) l have "w0 = savePersistence now ?w2"
    by (simp add: onReady_def Let_def)
  ultimately show ?thesis by simp
qed

text \<open>
  Claim C9. Start the process on any disk state and let the ready handler run; then let
  any sequence of events happen, with any number of save requests from the poll, the
  join handler and the shutdown path. In the state reached, the save timers pending and
  the writes in flight number at most one together, and exactly one when
  \<open>saveScheduled\<close> is set: two writes never overlap.
\<close>

theorem saves_coalesce:
  "\<exists>w0. onReady guilds now (initial d r) = Inr w0
        \<and> length (pending SaveCb (fst (run c v evs w0))) + length (writes (fst (run c v evs w0))) \<le> 1
        \<and> saveScheduled (fst (run c v evs w0))
            = (length (pending SaveCb (fst (run c v evs w0))) + length (writes (fst (run c v evs w0))) = 1)"
proof -
  obtain w1 existed where "loadPersistence (initial d r) = Inr (w1, existed)"
    using load_returns by blast
  then obtain w0 where w0: "onReady guilds now (initial d r) = Inr w0"
    by (simp add: onReady_def)
  from save_inv_onReady [OF save_inv_initial w0] have "save_inv w0" .
  then have "save_inv (fst (run c v evs w0))" by (rule save_inv_run)
  then have "length (pending SaveCb (fst (run c v evs w0))) + length (writes (fst (run c v evs w0)))
             = (if saveScheduled (fst (run c v evs w0)) then 1 else 0)"
    by (simp add: save_inv_def)
  with w0 show ?thesis by (cases "saveScheduled (fst (run c v evs w0))") auto
qed

theorem saves_coalesce_witness:
  "\<exists>w0. onReady [guildA 2] 1700000000000 (initial Corrupt (Some 1700000000000)) = Inr w0
        \<and> length (pending SaveCb (fst (run cfg_default Batched save_storm w0)))
            + length (writes (fst (run cfg_default Batched save_storm w0))) \<le> 1"
  using saves_coalesce [of "[guildA 2]" 1700000000000 Corrupt "Some 1700000000000"
      cfg_default Batched save_storm]
  by blast

subsection \<open>Reachable states are well formed\<close>

lemma wf_set_add: "wf_set s \<Longrightarrow> wf_set (set_add x s)"
  by (auto simp: wf_set_def set_add_def set_has_def)

lemma wf_set_fold_add: "wf_set acc \<Longrightarrow> wf_set (fold set_add xs acc)"
  by (induction xs arbitrary: acc) (simp_all add: wf_set_add)

lemma wf_set_new_Set: "new_Set v = Inr s \<Longrightarrow> wf_set s"
proof (cases v)
  case (JArr xs)
  assume "new_Set v = Inr s"
  with JArr have "s = fold set_add xs []" by simp
  then show ?thesis using wf_set_fold_add [of "[]" xs] by (simp add: wf_set_def)
next
  case (JStr str)
  assume "new_Set v = Inr s"
  with JStr have "s = fold set_add (map (\<lambda>ch. JStr [ch]) str) []" by simp
  then show ?thesis using wf_set_fold_add [of "[]"] by (simp add: wf_set_def)
qed (auto simp: wf_set_def)

lemma values_update: "snd ` set (AList.update g s km) \<subseteq> insert s (snd ` set km)"
  by (induction km) auto

lemma wf_known_update:
  assumes "wf_known km" and "wf_set s"
  shows "wf_known (AList.update g s km)"
proof -
  from assms(1) have "distinct (map fst (AList.update g s km))"
    by (simp add: wf_known_def distinct_update)
  moreover from assms have "\<forall>x \<in> insert s (snd ` set km). wf_set x"
    by (simp add: wf_known_def)
  with values_update [of g s km] have "\<forall>x \<in> snd ` set (AList.update g s km). wf_set x"
    by blast
  ultimately show ?thesis unfolding wf_known_def by blast
qed

lemma wf_known_lookup: "wf_known km \<Longrightarrow> map_of km g = Some s \<Longrightarrow> wf_set s"
  by (auto simp: wf_known_def dest!: map_of_SomeD)

lemma wf_known_ensure_entry:
  "wf_known (knownMembers w) \<Longrightarrow> wf_known (knownMembers (ensure_entry g w))"
  by (simp add: ensure_entry_def wf_known_update wf_set_def)

lemma wf_known_mark_known:
  assumes "wf_known km" and "mark_known g i km = Inr km'"
  shows "wf_known km'"
proof (cases "map_of km g")
  case None
  with assms(2) show ?thesis by (simp add: mark_known_def)
next
  case (Some s)
  with assms(1) have "wf_set (set_add (JStr i) s)"
    by (simp add: wf_known_lookup wf_set_add)
  with assms Some show ?thesis by (auto simp: mark_known_def wf_known_update)
qed

lemma wf_known_mark_all:
  "wf_known km \<Longrightarrow> mark_all g ms km = Inr km' \<Longrightarrow> wf_known km'"
proof (induction ms arbitrary: km)
  case Nil
  then show ?case by simp
next
  case (Cons m ms)
  show ?case
  proof (cases "mark_known g (mid m) km")
    case (Inl e)
    with Cons.prems show ?thesis by simp
  next
    case (Inr km1)
    with Cons.prems have "wf_known km1" and "mark_all g ms km1 = Inr km'"
      by (simp_all add: wf_known_mark_known)
    then show ?thesis by (rule Cons.IH)
  qed
qed

lemma wf_known_load_loop:
  "wf_known km \<Longrightarrow> load_loop es km = (km', r) \<Longrightarrow> wf_known km'"
proof (induction es arbitrary: km)
  case Nil
  then show ?case by simp
next
  case (Cons p es)
  obtain g v where p: "p = (g, v)" by (cases p)
  show ?case
  proof (cases "new_Set v")
    case (Inl e)
    with Cons.prems show ?thesis by (simp add: p)
  next
    case (Inr s)
    then have "wf_set s" by (rule wf_set_new_Set)
    with Cons.prems(1) have "wf_known (AList.update g s km)" by (rule wf_known_update)
    moreover from Cons.prems(2) Inr have "load_loop es (AList.update g s km) = (km', r)"
      by (simp add: p)
    ultimately show ?thesis by (rule Cons.IH)
  qed
qed

lemma wf_known_loadPersistence:
  assumes "wf_known (knownMembers w)" and "loadPersistence w = Inr (w', existed)"
  shows "wf_known (knownMembers w')"
proof -
  obtain km r where l: "load_try (persistenceFile w) (knownMembers w) = (km, r)"
    by (cases "load_try (persistenceFile w) (knownMembers w)")
  have "wf_known km"
  proof (cases "read_and_parse (persistenceFile w)")
    case (Inl e)
    with l assms(1) show ?thesis by (simp add: load_try_def)
  next
    case (Inr obj)
    with l have "load_loop (own_entries obj) (knownMembers w) = (km, r)"
      by (simp add: load_try_def)
    with assms(1) show ?thesis by (rule wf_known_load_loop)
  qed
  moreover from assms(2) l have "knownMembers w' = km"
    by (cases r) (auto simp: loadPersistence_def)
  ultimately show ?thesis by simp
qed

lemma wf_known_baseline:
  assumes "wf_known (knownMembers w)"
  shows "wf_known (knownMembers (baseline g w))"
proof (cases "mark_all (gid g) (cache g) (knownMembers (ensure_entry (gid g) w))")
  case (Inl e)
  with assms show ?thesis by (simp add: baseline_def Let_def wf_known_ensure_entry)
next
  case (Inr km)
  from wf_known_mark_all [OF wf_known_ensure_entry [OF assms] Inr] Inr
  show ?thesis by (simp add: baseline_def Let_def)
qed

lemma wf_known_fold_baseline:
  "wf_known (knownMembers w) \<Longrightarrow> wf_known (knownMembers (fold baseline gs w))"
  by (induction gs arbitrary: w) (simp_all add: wf_known_baseline)

lemma wf_known_onReady:
  assumes "wf_known (knownMembers w)" and "onReady guilds now w = Inr w0"
  shows "wf_known (knownMembers w0)"
proof -
  obtain w1 existed where l: "loadPersistence w = Inr (w1, existed)"
    using load_returns by blast
  from wf_known_loadPersistence [OF assms(1) l]
  have "wf_known (knownMembers (fold baseline guilds w1))" by (rule wf_known_fold_baseline)
  moreover from assms(2) l have "w0 = savePersistence now (fold baseline guilds w1)"
    by (simp add: onReady_def Let_def)
  ultimately show ?thesis by (simp add: savePersistence_known)
qed

lemma wf_known_step:
  assumes "wf_known (knownMembers w)" and "step c v e w = (w', fx)"
  shows "wf_known (knownMembers w')"
proof (cases e)
  case (EvPollCheck g)
  with assms(2) have "w' = ensure_entry (gid g) w"
    by (auto simp: pollPrecheck_def Let_def split: if_splits)
  with assms(1) show ?thesis by (simp add: wf_known_ensure_entry)
next
  case (EvPollFetched g fetched now)
  let ?new = "diffNewMembers (knownMembers w) (gid g) fetched"
  show ?thesis
  proof (cases "?new = [] \<or> (\<exists>e. mark_all (gid g) ?new (knownMembers w) = Inl e)")
    case True
    then have "pollFetched c g fetched now w = (w, [])"
      by (auto simp: pollFetched_def Let_def)
    with assms EvPollFetched show ?thesis by simp
  next
    case False
    then obtain km where km: "mark_all (gid g) ?new (knownMembers w) = Inr km"
      by (cases "mark_all (gid g) ?new (knownMembers w)") auto
    from wf_known_mark_all [OF assms(1) km] have "wf_known km" .
    moreover from False km assms(2) EvPollFetched have "knownMembers w' = km"
      by (auto simp: pollFetched_def Let_def forward_all_known savePersistence_known)
    ultimately show ?thesis by simp
  qed
next
  case (EvJoin ev ch now)
  with assms(2) have j: "guildMemberAdd v c ev ch now w = (w', fx)" by simp
  show ?thesis
  proof (cases ev)
    case None
    with j assms(1) show ?thesis by (simp add: guildMemberAdd_def)
  next
    case (Some m)
    show ?thesis
    proof (cases "mguild m")
      case None
      with j assms(1) Some show ?thesis by (simp add: guildMemberAdd_def)
    next
      case (Some g0)
      show ?thesis
      proof (cases "JStr (mid m) \<in> known_ids w g0 \<or> stale w m")
        case True
        from join_ignored [OF Some True, of v c ch now] j \<open>ev = Some m\<close> assms(1)
        show ?thesis by (auto simp: wf_known_ensure_entry)
      next
        case False
        then have nk: "JStr (mid m) \<notin> known_ids w g0" and ns: "\<not> stale w m" by auto
        from join_taken [OF Some nk ns, of v c ch now] obtain km where km:
          "mark_known g0 (mid m) (knownMembers (ensure_entry g0 w)) = Inr km"
          "guildMemberAdd v c (Some m) ch now w
             = (case v of
                  Batched \<Rightarrow>
                    (scheduleNotify c m g0 now
                       (savePersistence now ((ensure_entry g0 w)\<lparr> knownMembers := km \<rparr>)),
                     [Forward g0 m])
                | Instant \<Rightarrow>
                    (savePersistence now ((ensure_entry g0 w)\<lparr> knownMembers := km \<rparr>),
                     map Sent (dispatch_detailed ch (g0, [m]))))"
          by blast
        from wf_known_mark_known [OF wf_known_ensure_entry [OF assms(1)] km(1)]
        have "wf_known km" .
        moreover from j \<open>ev = Some m\<close> km(2) have "knownMembers w' = km"
          by (cases v) (auto simp: scheduleNotify_known savePersistence_known)
        ultimately show ?thesis by simp
      qed
    qed
  qed
next
  case (EvFire h chans)
  with assms(2) have "fire v h chans w = (w', fx)" by simp
  from fire_known [OF this] assms(1) show ?thesis by simp
next
  case (EvWriteDone r)
  with assms show ?thesis by (auto simp: writeDone_def split: list.splits)
next
  case (EvSave now)
  with assms show ?thesis by (auto simp: savePersistence_known)
qed

lemma wf_known_run:
  "wf_known (knownMembers w) \<Longrightarrow> wf_known (knownMembers (fst (run c v evs w)))"
proof (induction evs arbitrary: w)
  case Nil
  then show ?case by simp
next
  case (Cons e evs)
  obtain w1 fx1 where s: "step c v e w = (w1, fx1)" by (cases "step c v e w")
  obtain w2 fx2 where r: "run c v evs w1 = (w2, fx2)" by (cases "run c v evs w1")
  from wf_known_step [OF Cons.prems s] have "wf_known (knownMembers w1)" .
  from Cons.IH [OF this] show ?case by (simp add: s r)
qed

text \<open>
  Every state that the program reaches from its start is well formed: the hypotheses
  on the shape of the state in the theorems above hold there.
\<close>

lemma reachable_well_formed:
  assumes "onReady guilds now (initial d r) = Inr w0"
  shows "wf_known (knownMembers (fst (run c v evs w0))) \<and> wf_timers (fst (run c v evs w0))"
proof -
  have "wf_known (knownMembers (initial d r))" by (simp add: wf_known_def initial_def)
  from wf_known_onReady [OF this assms] have "wf_known (knownMembers (fst (run c v evs w0)))"
    by (rule wf_known_run)
  moreover from save_inv_onReady [OF save_inv_initial assms]
  have "save_inv (fst (run c v evs w0))" by (rule save_inv_run)
  ultimately show ?thesis by (simp add: save_inv_def)
qed

end
